theory Spec2Isabelle
  imports Main
begin

chapter \<open>The model\<close>

section \<open>Text\<close>

text \<open>
  A Python \<open>str\<close> is a sequence of Unicode code points. It is modelled as a list of
  natural numbers, one per code point, so that \<open>length\<close> counts what \<open>len\<close> counts.
  \<open>str\<close> turns an ASCII literal of the source into that representation.
\<close>

type_synonym uchar = nat
type_synonym ustr = "uchar list"

definition str :: "string \<Rightarrow> ustr" where
  "str cs = map of_char cs"

text \<open>The slice \<open>s[i:j]\<close> for indices \<open>0 \<le> i\<close>, \<open>0 \<le> j\<close> (empty when \<open>j \<le> i\<close>).\<close>

definition slice :: "'a list \<Rightarrow> nat \<Rightarrow> nat \<Rightarrow> 'a list" where
  "slice s i j = take (j - i) (drop i s)"

text \<open>
  The white space of \<open>str.isspace\<close>, \<open>str.strip\<close> and of the regular expression
  class \<open>\s\<close> on \<open>str\<close> patterns: the same set of code points for all three.
\<close>

definition is_space :: "uchar \<Rightarrow> bool" where
  "is_space c \<longleftrightarrow>
     (9 \<le> c \<and> c \<le> 13) \<or> (28 \<le> c \<and> c \<le> 32) \<or> c = 133 \<or> c = 160 \<or> c = 5760 \<or>
     (8192 \<le> c \<and> c \<le> 8202) \<or> c = 8232 \<or> c = 8233 \<or> c = 8239 \<or> c = 8287 \<or> c = 12288"

definition lstrip :: "ustr \<Rightarrow> ustr" where
  "lstrip s = dropWhile is_space s"

definition rstrip :: "ustr \<Rightarrow> ustr" where
  "rstrip s = rev (dropWhile is_space (rev s))"

definition strip :: "ustr \<Rightarrow> ustr" where
  "strip s = rstrip (lstrip s)"

text \<open>
  \<open>hay.find(sub)\<close>: the least index at which \<open>sub\<close> occurs in \<open>hay\<close>, \<open>None\<close> for
  Python's \<open>-1\<close>. \<open>sub in hay\<close> holds exactly when \<open>find\<close> finds an index.
\<close>

primrec find_str :: "'a list \<Rightarrow> 'a list \<Rightarrow> nat option" where
  "find_str sub [] = (if sub = [] then Some 0 else None)"
| "find_str sub (c # cs) =
     (if take (length sub) (c # cs) = sub then Some 0
      else map_option Suc (find_str sub cs))"

definition contains_str :: "'a list \<Rightarrow> 'a list \<Rightarrow> bool" where
  "contains_str sub hay \<longleftrightarrow> find_str sub hay \<noteq> None"

text \<open>\<open>sep.join(xs)\<close>.\<close>

fun join :: "'a list \<Rightarrow> 'a list list \<Rightarrow> 'a list" where
  "join sep [] = []"
| "join sep [x] = x"
| "join sep (x # y # ys) = x @ sep @ join sep (y # ys)"

text \<open>
  \<open>s.splitlines()\<close>: the line boundaries of Python are \<open>\n\<close>, \<open>\r\<close>, \<open>\r\n\<close>,
  \<open>\v\<close>, \<open>\f\<close>, U+001C to U+001E, U+0085, U+2028 and U+2029; the lines come without
  their terminators, and a terminator at the very end opens no further line. The first
  argument of \<open>splitlines_from\<close> is the current line, reversed.
\<close>

definition is_linebreak :: "uchar \<Rightarrow> bool" where
  "is_linebreak c \<longleftrightarrow>
     (10 \<le> c \<and> c \<le> 13) \<or> (28 \<le> c \<and> c \<le> 30) \<or> c = 133 \<or> c = 8232 \<or> c = 8233"

fun splitlines_from :: "ustr \<Rightarrow> ustr \<Rightarrow> ustr list" where
  "splitlines_from cur [] = (if cur = [] then [] else [rev cur])"
| "splitlines_from cur (c # cs) =
     (if c = 13 then
        (case cs of
           [] \<Rightarrow> [rev cur]
         | d # ds \<Rightarrow> if d = 10 then rev cur # splitlines_from [] ds
                    else rev cur # splitlines_from [] (d # ds))
      else if is_linebreak c then rev cur # splitlines_from [] cs
      else splitlines_from (c # cur) cs)"

definition splitlines :: "ustr \<Rightarrow> ustr list" where
  "splitlines s = splitlines_from [] s"

text \<open>The decimal digits of a natural number, as \<open>f"{n}"\<close> prints an \<open>int\<close> that is not negative.\<close>

fun dec :: "nat \<Rightarrow> ustr" where
  "dec n = (if n < 10 then [48 + n] else dec (n div 10) @ [48 + n mod 10])"

section \<open>The configuration value \<open>api_key\<close>\<close>

text \<open>
  Both \<open>RepoHelpers.py\<close> and \<open>workflows.py\<close> bind the name \<open>api_key\<close> when they are
  imported:
  \<^verbatim>\<open>
  with open('config.json', 'r') as f:
      config = json.load(f)
  gemini_config = config.get('gemini')
  api_key = gemini_config.get('key')
  \<close>
  It is the key of the reasoning service, a string (\<open>genai.Client(api_key=api_key)\<close>).
  In the checked-in source the same name also stands where a function is called:
  \<open>RepoHelpers.py\<close> has \<open>api_key(...)\<close> at lines 212, 351, 381, 400, 608 and 613 and
  passes \<open>max_chars=api_key\<close> at line 326, \<open>workflows.py\<close> has \<open>api_key(...)\<close> at lines
  45, 67, 82 and 104. No definition in either module rebinds the name, so each of these
  calls is a call of the string: Python evaluates the arguments and raises \<open>TypeError\<close>
  (a \<open>str\<close> object is not callable). \<open>call_str\<close> is that call; its result type has a
  returning branch only so that the statements after the call can be written down.
\<close>

datatype exn = TypeError | UnicodeEncodeError | Other_exception

definition call_str :: "ustr \<Rightarrow> exn + 'a" where
  "call_str f = Inl TypeError"

text \<open>The text of the exception, as \<open>str(e)\<close> gives it.\<close>

definition not_callable :: ustr where
  "not_callable = [39] @ str ''str'' @ [39] @ str '' object is not callable''"

section \<open>Chunking (\<open>_chunk_text\<close> in \<open>llm_scan_staged_secrets_in_index\<close>)\<close>

text \<open>
  \<^verbatim>\<open>
  def _chunk_text(s, max_chars=60000, overlap=200):
      if len(s) <= max_chars:
          return [(0, s)]
      out, i, n = [], 0, len(s)
      while i < n:
          j = min(i + max_chars, n)
          out.append((i, s[i:j]))
          if j == n:
              break
          i = max(0, j - overlap)
      return out
  \<close>
  \<open>max_chars\<close> and \<open>overlap\<close> are natural numbers here (the source passes 60000 and
  200), so \<open>max(0, j - overlap)\<close> is the truncating subtraction of \<open>nat\<close>. The loop does
  not terminate for every pair of parameters (for \<open>overlap \<ge> max_chars\<close> the index never
  advances), so it is a partial function: \<open>None\<close> stands for a run that never returns.
\<close>

partial_function (option) chunk_loop ::
  "'a list \<Rightarrow> nat \<Rightarrow> nat \<Rightarrow> nat \<Rightarrow> (nat \<times> 'a list) list \<Rightarrow> (nat \<times> 'a list) list option"
where
  "chunk_loop s max_chars overlap i out =
     (if i < length s then
        (if min (i + max_chars) (length s) = length s
         then Some (out @ [(i, slice s i (min (i + max_chars) (length s)))])
         else chunk_loop s max_chars overlap (min (i + max_chars) (length s) - overlap)
                (out @ [(i, slice s i (min (i + max_chars) (length s)))]))
      else Some out)"

definition chunk_text :: "'a list \<Rightarrow> nat \<Rightarrow> nat \<Rightarrow> (nat \<times> 'a list) list option" where
  "chunk_text s max_chars overlap =
     (if length s \<le> max_chars then Some [(0, s)] else chunk_loop s max_chars overlap 0 [])"

section \<open>Findings of the semantic pass\<close>

text \<open>
  A finding as \<open>_extract_findings_from_response\<close> returns it: a dictionary with the
  integer offsets \<open>start\<close> and \<open>end\<close> and the strings \<open>kind\<close>, \<open>reason\<close> and
  \<open>snippet\<close>. The offsets are whatever integers the service wrote, so they are \<open>int\<close>.
\<close>

record finding =
  f_start :: int
  f_end :: int
  f_kind :: ustr
  f_reason :: ustr
  f_snippet :: ustr

text \<open>
  The body of the loop over the findings of one chunk, in \<open>llm_scan_staged_secrets_in_index\<close>:
  \<^verbatim>\<open>
  s, e = f['start'], f['end']
  if 0 <= s < e < len(chunk):
      candidate = chunk[s:e]
      snip = f.get("snippet") or ""
      if snip and snip not in candidate:
          idx = chunk.find(snip)
          if idx != -1:
              s, e = idx, idx + len(snip)
              candidate = chunk[s:e]
      if len(candidate.strip()) >= 8:
          all_ranges.append((base + s, base + e))
          notes.append(f"{path_str}: {f.get('kind','secret')} -> {f.get('reason','')}")
  \<close>
  \<open>relocate\<close> is the inner \<open>if\<close>: it returns the span \<open>(s, e)\<close> that the length test
  and the translation then use. \<open>map_finding\<close> returns the range appended to
  \<open>all_ranges\<close>, or \<open>None\<close> when nothing is appended.
\<close>

definition relocate :: "ustr \<Rightarrow> finding \<Rightarrow> nat \<times> nat" where
  "relocate chunk f =
     (let s = nat (f_start f); e = nat (f_end f); snip = f_snippet f in
      if snip \<noteq> [] \<and> \<not> contains_str snip (slice chunk s e) then
        (case find_str snip chunk of
           Some idx \<Rightarrow> (idx, idx + length snip)
         | None \<Rightarrow> (s, e))
      else (s, e))"

definition map_finding :: "nat \<Rightarrow> ustr \<Rightarrow> finding \<Rightarrow> (nat \<times> nat) option" where
  "map_finding base chunk f =
     (if 0 \<le> f_start f \<and> f_start f < f_end f \<and> f_end f < int (length chunk) then
        (case relocate chunk f of
           (s, e) \<Rightarrow>
             if 8 \<le> length (strip (slice chunk s e)) then Some (base + s, base + e) else None)
      else None)"

text \<open>
  The note appended with a kept range; the arrow of the source's format string is the
  code point U+2192.
\<close>

definition finding_note :: "ustr \<Rightarrow> finding \<Rightarrow> ustr" where
  "finding_note path_str f = path_str @ str '': '' @ f_kind f @ [32, 8594, 32] @ f_reason f"

text \<open>The loop over the findings of one chunk: the ranges and the notes it appends.\<close>

fun map_findings ::
  "ustr \<Rightarrow> nat \<Rightarrow> ustr \<Rightarrow> finding list \<Rightarrow> (nat \<times> nat) list \<times> ustr list" where
  "map_findings path_str base chunk [] = ([], [])"
| "map_findings path_str base chunk (f # fs) =
     (case map_findings path_str base chunk fs of
        (ranges, notes) \<Rightarrow>
          (case map_finding base chunk f of
             Some r \<Rightarrow> (r # ranges, finding_note path_str f # notes)
           | None \<Rightarrow> (ranges, notes)))"

section \<open>The commit message\<close>

text \<open>
  The entries that the two sanitization passes report: the pattern pass appends
  \<open>{'path': ..., 'replaced': True}\<close>, the semantic pass
  \<open>{'path': ..., 'replaced_count': ..., 'notes': [...]}\<close>.
\<close>

record regex_result =
  rr_path :: ustr
  rr_replaced :: bool

record llm_result =
  lr_path :: ustr
  lr_replaced_count :: nat
  lr_notes :: "ustr list"

text \<open>
  \<open>s.upper().startswith("A")\<close> and its siblings for \<open>"M"\<close> and \<open>"D"\<close>. \<open>upper\<close>
  maps a string code point by code point, so the test looks at the first code point
  only; besides \<open>A\<close> and \<open>a\<close> the upper case of U+1E9A starts with \<open>A\<close>, and no
  further code point does so for \<open>M\<close> or \<open>D\<close>.
\<close>

definition upper_startswith_A :: "ustr \<Rightarrow> bool" where
  "upper_startswith_A s = (case s of [] \<Rightarrow> False | c # _ \<Rightarrow> c = 65 \<or> c = 97 \<or> c = 7834)"

definition upper_startswith_M :: "ustr \<Rightarrow> bool" where
  "upper_startswith_M s = (case s of [] \<Rightarrow> False | c # _ \<Rightarrow> c = 77 \<or> c = 109)"

definition upper_startswith_D :: "ustr \<Rightarrow> bool" where
  "upper_startswith_D s = (case s of [] \<Rightarrow> False | c # _ \<Rightarrow> c = 68 \<or> c = 100)"

text \<open>
  \<^verbatim>\<open>
  def _fallback_commit_message(staged, sanitized, llm_results):
      added = sum(1 for s, _ in staged if s.upper().startswith("A"))
      modified = sum(1 for s, _ in staged if s.upper().startswith("M"))
      deleted = sum(1 for s, _ in staged if s.upper().startswith("D"))
      sec_paths = {d["path"] for d in (sanitized or [])}
      sec_paths |= {d["path"] for d in (llm_results or []) if "path" in d}
      subject = "chore: commit staged changes"
      if sec_paths:
          subject = "chore(security): sanitize secrets and commit changes"
      body = []
      if added or modified or deleted:
          body.append(f"- files: +{added} ~{modified} -{deleted}")
      if sec_paths:
          body.append(f"- sanitized secrets in {len(sec_paths)} file(s)")
      body.append("- auto-generated message (fallback)")
      return subject + "\n\n" + "\n".join(body)
  \<close>
  \<open>staged\<close> is the list of (status, path) pairs of \<open>_staged_name_status\<close>. A missing
  list (\<open>None\<close>) of results is the empty list, as \<open>sanitized or []\<close> makes it.
\<close>

definition count_status :: "(ustr \<Rightarrow> bool) \<Rightarrow> (ustr \<times> ustr) list \<Rightarrow> nat" where
  "count_status p staged = length (filter (\<lambda>(s, _). p s) staged)"

definition sec_paths :: "regex_result list \<Rightarrow> llm_result list \<Rightarrow> ustr set" where
  "sec_paths sanitized llm_results = set (map rr_path sanitized) \<union> set (map lr_path llm_results)"

definition fallback_commit_message ::
  "(ustr \<times> ustr) list \<Rightarrow> regex_result list \<Rightarrow> llm_result list \<Rightarrow> ustr" where
  "fallback_commit_message staged sanitized llm_results =
     (let added = count_status upper_startswith_A staged;
          modified = count_status upper_startswith_M staged;
          deleted = count_status upper_startswith_D staged;
          sec = sec_paths sanitized llm_results;
          subject = (if sec \<noteq> {} then str ''chore(security): sanitize secrets and commit changes''
                     else str ''chore: commit staged changes'');
          body = (if added \<noteq> 0 \<or> modified \<noteq> 0 \<or> deleted \<noteq> 0
                  then [str ''- files: +'' @ dec added @ str '' ~'' @ dec modified
                          @ str '' -'' @ dec deleted]
                  else [])
               @ (if sec \<noteq> {}
                  then [str ''- sanitized secrets in '' @ dec (card sec) @ str '' file(s)'']
                  else [])
               @ [str ''- auto-generated message (fallback)'']
      in subject @ [10, 10] @ join [10] body)"

text \<open>
  The reply of the message service, as \<open>generate_commit_message\<close> sees it inside its
  \<open>try\<close>: the call raises, or it returns a response whose \<open>text\<close> is a string or
  \<open>None\<close>.
\<close>

datatype service_reply = Service_raises | Service_text "ustr option"

text \<open>\<open>msg.replace("```", "")\<close>: every occurrence of three backquotes, from the left.\<close>

fun remove_fences :: "ustr \<Rightarrow> ustr" where
  "remove_fences (a # b # c # rest) =
     (if a = 96 \<and> b = 96 \<and> c = 96 then remove_fences rest
      else a # remove_fences (b # c # rest))"
| "remove_fences s = s"

text \<open>
  \<^verbatim>\<open>
  def generate_commit_message(repo, sanitized, llm_results, max_ctx_chars=110_000):
      """
      Build a Conventional Commits-style message with dynamic repo context.
      Uses module-level `api_key` and `model` variables (already loaded from config).
      Falls back to a deterministic message if the model fails.
      """
      staged = api_key(repo)
      if not staged:
          return "chore: no-op (nothing staged)"
      staged_paths = [p for _, p in staged]
      ctx = api_key(repo, staged_paths)
      ...
      try:
          client = genai.Client(api_key=api_key)
          resp = client.models.generate_content(...)
          msg = (getattr(resp, "text", None) or "").strip()
          if not msg:
              raise RuntimeError("empty LLM response")
          if "```" in msg:
              msg = msg.replace("```", "").strip()
          lines = [ln.rstrip() for ln in msg.splitlines()]
          if not lines or not lines[0]:
              raise RuntimeError("invalid commit message")
          if len(lines[0]) > 72:
              lines[0] = lines[0][:72]
          normalized = "\n".join(
              [lines[0]] + ([] if len(lines) == 1 or lines[1] == "" else [""]) + lines[1:])
          return normalized
      except Exception as e:
          return _fallback_commit_message(staged, sanitized or [], llm_results or [])
  \<close>
  The two calls before the \<open>try\<close> are calls of the configuration string (lines 608 and
  613); no handler encloses them. The context gathered between them and the \<open>try\<close>
  only feeds the request; the reply of the service is an input of the model.
  \<open>reply_message\<close> is \<open>msg\<close> before the fence clean-up, \<open>reply_lines\<close> is \<open>lines\<close>
  before the subject is cut.
\<close>

definition reply_message :: "ustr option \<Rightarrow> ustr" where
  "reply_message t = strip (case t of None \<Rightarrow> [] | Some x \<Rightarrow> x)"

definition reply_lines :: "ustr option \<Rightarrow> ustr list" where
  "reply_lines t =
     (let msg = reply_message t;
          msg = (if contains_str (str ''```'') msg then strip (remove_fences msg) else msg)
      in map rstrip (splitlines msg))"

definition normalize_lines :: "ustr list \<Rightarrow> ustr" where
  "normalize_lines lines =
     (case lines of
        [] \<Rightarrow> []
      | l # ls \<Rightarrow>
          join [10] ([if 72 < length l then take 72 l else l]
            @ (case ls of [] \<Rightarrow> [] | l1 # _ \<Rightarrow> if l1 = [] then [] else [[]])
            @ ls))"

definition generate_commit_message ::
  "ustr \<Rightarrow> regex_result list \<Rightarrow> llm_result list \<Rightarrow> service_reply \<Rightarrow> exn + ustr" where
  "generate_commit_message api_key sanitized llm_results reply =
     (case call_str api_key of
        Inl e \<Rightarrow> Inl e
      | Inr staged \<Rightarrow>
          if staged = [] then Inr (str ''chore: no-op (nothing staged)'')
          else
            (case (call_str api_key :: exn + unit) of
               Inl e \<Rightarrow> Inl e
             | Inr ctx \<Rightarrow>
                 (case reply of
                    Service_raises \<Rightarrow> Inr (fallback_commit_message staged sanitized llm_results)
                  | Service_text t \<Rightarrow>
                      if reply_message t = []
                        then Inr (fallback_commit_message staged sanitized llm_results)
                      else if reply_lines t = [] \<or> hd (reply_lines t) = []
                        then Inr (fallback_commit_message staged sanitized llm_results)
                      else Inr (normalize_lines (reply_lines t)))))"

section \<open>The orchestrator (\<open>auto_commit\<close>)\<close>



datatype action =
    Fetch ustr
  | Stage_all
  | Commit ustr
  | Push ustr






section \<open>Regular expressions\<close>

text \<open>
  The patterns of \<open>RepoHelpers.py\<close> are matched by Python's \<open>re\<close>, a backtracking
  matcher: at a position of the subject it explores the alternatives of a pattern in a
  fixed order of preference (a greedy repetition tries the longest run first, an
  alternation its left branch first, an optional part its presence first) and takes the
  first way that reaches the end of the pattern. The model gives a pattern as a tree and
  its matches at a position as the list of all ways to match, in that order of
  preference; the match that \<open>re\<close> finds is the head of the list.

  A character class is a list of inclusive ranges of code points.
\<close>

type_synonym cls = "(uchar \<times> uchar) list"

fun in_cls :: "cls \<Rightarrow> uchar \<Rightarrow> bool" where
  "in_cls [] c = False"
| "in_cls ((lo, hi) # rs) c = (lo \<le> c \<and> c \<le> hi \<or> in_cls rs c)"

definition rng :: "char \<Rightarrow> char \<Rightarrow> uchar \<times> uchar" where
  "rng a b = (of_char a, of_char b)"

definition one :: "char \<Rightarrow> uchar \<times> uchar" where
  "one a = (of_char a, of_char a)"

text \<open>
  The constructors: one character of a class; a greedy repetition \<open>{lo,hi}\<close> of a class
  (\<open>None\<close> for no upper bound); sequence; alternation; a greedy optional part; a
  capturing group; a backreference; \<open>\b\<close>; the negative look-behind and look-ahead for
  one character of a class. Every repetition in the patterns of the source is over a
  single class, and every look-around is negative and over a single class.
\<close>

datatype rx =
    Eps
  | Cls cls
  | Rep nat "nat option" cls
  | Seq rx rx
  | Alt rx rx
  | Opt rx
  | Grp nat rx
  | Backref nat
  | Word_boundary
  | Not_behind cls
  | Not_ahead cls

fun seq :: "rx list \<Rightarrow> rx" where
  "seq [] = Eps"
| "seq [r] = r"
| "seq (r # rs) = Seq r (seq rs)"

fun alts :: "rx list \<Rightarrow> rx" where
  "alts [] = Cls []"
| "alts [r] = r"
| "alts (r # rs) = Alt r (alts rs)"

text \<open>
  A literal, and a literal under \<open>IGNORECASE\<close>. Under \<open>IGNORECASE\<close> an ASCII letter
  matches both of its cases, and \<open>re\<close> adds the code points whose case folding is that
  letter: U+017F for \<open>s\<close> and U+212A for \<open>k\<close>.
\<close>

definition lit :: "string \<Rightarrow> rx" where
  "lit cs = seq (map (\<lambda>c. Cls [one c]) cs)"

definition fold_case :: "uchar \<Rightarrow> cls" where
  "fold_case c =
     (if 65 \<le> c \<and> c \<le> 90 then [(c, c), (c + 32, c + 32)]
      else if 97 \<le> c \<and> c \<le> 122 then [(c - 32, c - 32), (c, c)]
      else [(c, c)])
     @ (if c = 83 \<or> c = 115 then [(383, 383)]
        else if c = 75 \<or> c = 107 then [(8490, 8490)]
        else [])"

definition ilit :: "string \<Rightarrow> rx" where
  "ilit cs = seq (map (\<lambda>c. Cls (fold_case (of_char c))) cs)"

text \<open>
  The groups captured so far: an association list from group numbers to captured text,
  the latest capture first. \<open>group g n\<close> is \<open>m.group(n) or ''\<close>.
\<close>

type_synonym groups = "(nat \<times> ustr) list"

definition group :: "groups \<Rightarrow> nat \<Rightarrow> ustr" where
  "group g n = (case map_of g n of None \<Rightarrow> [] | Some x \<Rightarrow> x)"

text \<open>
  \<open>\w\<close> on a \<open>str\<close> pattern is \<open>_\<close> or an alphanumeric code point of Unicode. The
  table of the alphanumeric code points beyond ASCII belongs to the Python runtime and
  is a parameter \<open>w\<close> of the matcher; within ASCII the class is written out.
\<close>

definition is_word :: "(uchar \<Rightarrow> bool) \<Rightarrow> uchar \<Rightarrow> bool" where
  "is_word w c \<longleftrightarrow>
     (48 \<le> c \<and> c \<le> 57) \<or> (65 \<le> c \<and> c \<le> 90) \<or> c = 95 \<or> (97 \<le> c \<and> c \<le> 122) \<or>
     (128 \<le> c \<and> w c)"

definition word_at :: "(uchar \<Rightarrow> bool) \<Rightarrow> ustr \<Rightarrow> nat \<Rightarrow> bool" where
  "word_at w s i \<longleftrightarrow> i < length s \<and> is_word w (s ! i)"

text \<open>The length of the run of class characters at position \<open>i\<close>, cut at the upper bound.\<close>

definition run :: "cls \<Rightarrow> nat option \<Rightarrow> ustr \<Rightarrow> nat \<Rightarrow> nat" where
  "run c hi s i =
     (case hi of
        None \<Rightarrow> length (takeWhile (in_cls c) (drop i s))
      | Some h \<Rightarrow> min h (length (takeWhile (in_cls c) (drop i s))))"

text \<open>
  \<open>ms w r s i g\<close>: the ways to match \<open>r\<close> in \<open>s\<close> from position \<open>i\<close> with the groups
  \<open>g\<close> captured before, each as the end position with the groups captured then, in the
  order in which the backtracking matcher tries them. A backreference to a group that
  has not been captured fails.
\<close>

fun ms :: "(uchar \<Rightarrow> bool) \<Rightarrow> rx \<Rightarrow> ustr \<Rightarrow> nat \<Rightarrow> groups \<Rightarrow> (nat \<times> groups) list" where
  "ms w Eps s i g = [(i, g)]"
| "ms w (Cls c) s i g = (if i < length s \<and> in_cls c (s ! i) then [(Suc i, g)] else [])"
| "ms w (Rep lo hi c) s i g = map (\<lambda>n. (i + n, g)) (rev [lo ..< Suc (run c hi s i)])"
| "ms w (Seq a b) s i g = concat (map (\<lambda>(j, g'). ms w b s j g') (ms w a s i g))"
| "ms w (Alt a b) s i g = ms w a s i g @ ms w b s i g"
| "ms w (Opt a) s i g = ms w a s i g @ [(i, g)]"
| "ms w (Grp n a) s i g = map (\<lambda>(j, g'). (j, (n, slice s i j) # g')) (ms w a s i g)"
| "ms w (Backref n) s i g =
     (case map_of g n of
        None \<Rightarrow> []
      | Some x \<Rightarrow> if take (length x) (drop i s) = x then [(i + length x, g)] else [])"
| "ms w Word_boundary s i g =
     (if word_at w s i \<noteq> (0 < i \<and> word_at w s (i - 1)) then [(i, g)] else [])"
| "ms w (Not_behind c) s i g =
     (if 0 < i \<and> i \<le> length s \<and> in_cls c (s ! (i - 1)) then [] else [(i, g)])"
| "ms w (Not_ahead c) s i g =
     (if i < length s \<and> in_cls c (s ! i) then [] else [(i, g)])"

text \<open>
  The matches that \<open>rx.sub\<close> replaces (those of \<open>finditer\<close>): scanning from position
  \<open>i\<close>, the first position with a match gives the next match \<open>(start, end, groups)\<close>,
  and the scan goes on at its end. A match of length zero would let the scan go on one
  position further; no pattern of the source matches the empty string.
\<close>

function matches_from ::
  "(uchar \<Rightarrow> bool) \<Rightarrow> rx \<Rightarrow> ustr \<Rightarrow> nat \<Rightarrow> (nat \<times> nat \<times> groups) list" where
  "matches_from w r s i =
     (if length s < i then []
      else
        (case ms w r s i [] of
           [] \<Rightarrow> matches_from w r s (Suc i)
         | (e, g) # _ \<Rightarrow>
             if i < e then (i, e, g) # matches_from w r s e
             else (i, e, g) # matches_from w r s (Suc i)))"
  by pat_completeness auto
termination
  by (relation "measure (\<lambda>(w, r, s, i). Suc (length s) - i)") auto

declare matches_from.simps [simp del]

text \<open>
  The text that \<open>sub\<close> returns: the subject with every match replaced by what \<open>repl\<close>
  makes of its groups. \<open>splice repl s i found\<close> is the output from position \<open>i\<close> on.
\<close>

fun splice :: "(groups \<Rightarrow> ustr) \<Rightarrow> ustr \<Rightarrow> nat \<Rightarrow> (nat \<times> nat \<times> groups) list \<Rightarrow> ustr" where
  "splice repl s i [] = drop i s"
| "splice repl s i ((j, e, g) # rest) = slice s i j @ repl g @ splice repl s e rest"

definition re_sub :: "(uchar \<Rightarrow> bool) \<Rightarrow> rx \<Rightarrow> (groups \<Rightarrow> ustr) \<Rightarrow> ustr \<Rightarrow> ustr" where
  "re_sub w r repl s = splice repl s 0 (matches_from w r s 0)"

section \<open>The patterns and \<open>_sanitize_text\<close>\<close>

text \<open>The classes of the patterns, named after what the source writes in brackets.\<close>

definition space_cls :: cls where
  "space_cls = [(9, 13), (28, 32), (133, 133), (160, 160), (5760, 5760), (8192, 8202),
                (8232, 8233), (8239, 8239), (8287, 8287), (12288, 12288)]"

definition upper_digit :: cls where
  "upper_digit = [rng CHR ''0'' CHR ''9'', rng CHR ''A'' CHR ''Z'']"

definition alnum :: cls where
  "alnum = [rng CHR ''A'' CHR ''Z'', rng CHR ''a'' CHR ''z'', rng CHR ''0'' CHR ''9'']"

definition alnum_us :: cls where
  "alnum_us = alnum @ [one CHR ''_'']"

definition alnum_dash :: cls where
  "alnum_dash = alnum @ [one CHR ''-'']"

definition alnum_us_dash :: cls where
  "alnum_us_dash = alnum @ [one CHR ''_'', one CHR ''-'']"

definition key_cls :: cls where
  "key_cls = alnum @ [one CHR ''_'', one CHR ''.'', one CHR ''-'']"

definition value_cls :: cls where
  "value_cls = alnum @ [one CHR ''_'', one CHR ''-'', one CHR ''/'', one CHR ''+'', one CHR ''='']"

definition bearer_cls :: cls where
  "bearer_cls = alnum @ [one CHR ''-'', one CHR ''.'', one CHR ''_'', one CHR ''='']"

text \<open>
  Under \<open>IGNORECASE\<close> a class that holds the ASCII letters also matches the four code
  points beyond ASCII whose case folding is an ASCII letter: U+0130, U+0131, U+017F and
  U+212A.
\<close>

definition ignorecase_extra :: cls where
  "ignorecase_extra = [(304, 305), (383, 383), (8490, 8490)]"

text \<open>
  \<^verbatim>\<open>
  SECRET_TOKEN_PATTERNS = [
      r"AKIA[0-9A-Z]{16}",
      r"ASIA[0-9A-Z]{16}",
      r"AIza[0-9A-Za-z_\-]{35}",
      r"ghp_[A-Za-z0-9]{36}",
      r"github_pat_[A-Za-z0-9_]{82}",
      r"xox[baprs]-[A-Za-z0-9-]{10,48}",
      r"sk_live_[0-9A-Za-z]{24,}",
      r"sk-[A-Za-z0-9]{20,48}",
      r"(?i:Bearer\s+[A-Za-z0-9\-\._=]{20,})",
      r"\b[A-Za-z0-9_-]{10,}\.[A-Za-z0-9_-]{10,}\.[A-Za-z0-9_-]{8,}\b",
      r"\beyJ[A-Za-z0-9_-]{10,}\.[A-Za-z0-9_-]{10,}\.[A-Za-z0-9_-]{8,}\b",
      r"(?<![A-Za-z0-9_-])eyJ[A-Za-z0-9_-]{10,}\.[A-Za-z0-9_-]{10,}\.[A-Za-z0-9_-]{8,}(?![A-Za-z0-9_-])",
      r"(?<![A-Za-z0-9_-])sk-[A-Za-z0-9]{8,19}(?![A-Za-z0-9_-])",
      r"(?<![A-Za-z0-9_-])eyJ[A-Za-z0-9_-]{10,}\.[A-Za-z0-9_-]{10,}(?:\.[A-Za-z0-9_-]{8,})?(?![A-Za-z0-9_-])",
  ]
  \<close>
\<close>

definition SECRET_TOKEN_PATTERNS :: "rx list" where
  "SECRET_TOKEN_PATTERNS =
     [seq [lit ''AKIA'', Rep 16 (Some 16) upper_digit],
      seq [lit ''ASIA'', Rep 16 (Some 16) upper_digit],
      seq [lit ''AIza'', Rep 35 (Some 35) alnum_us_dash],
      seq [lit ''ghp_'', Rep 36 (Some 36) alnum],
      seq [lit ''github_pat_'', Rep 82 (Some 82) alnum_us],
      seq [lit ''xox'', Cls [one CHR ''b'', one CHR ''a'', one CHR ''p'', one CHR ''r'', one CHR ''s''],
           lit ''-'', Rep 10 (Some 48) alnum_dash],
      seq [lit ''sk_live_'', Rep 24 None alnum],
      seq [lit ''sk-'', Rep 20 (Some 48) alnum],
      seq [ilit ''Bearer'', Rep 1 None space_cls, Rep 20 None (bearer_cls @ ignorecase_extra)],
      seq [Word_boundary, Rep 10 None alnum_us_dash, lit ''.'', Rep 10 None alnum_us_dash,
           lit ''.'', Rep 8 None alnum_us_dash, Word_boundary],
      seq [Word_boundary, lit ''eyJ'', Rep 10 None alnum_us_dash, lit ''.'',
           Rep 10 None alnum_us_dash, lit ''.'', Rep 8 None alnum_us_dash, Word_boundary],
      seq [Not_behind alnum_us_dash, lit ''eyJ'', Rep 10 None alnum_us_dash, lit ''.'',
           Rep 10 None alnum_us_dash, lit ''.'', Rep 8 None alnum_us_dash,
           Not_ahead alnum_us_dash],
      seq [Not_behind alnum_us_dash, lit ''sk-'', Rep 8 (Some 19) alnum, Not_ahead alnum_us_dash],
      seq [Not_behind alnum_us_dash, lit ''eyJ'', Rep 10 None alnum_us_dash, lit ''.'',
           Rep 10 None alnum_us_dash, Opt (seq [lit ''.'', Rep 8 None alnum_us_dash]),
           Not_ahead alnum_us_dash]]"

text \<open>
  \<open>re.compile('|'.join(f'(?:{p})' for p in SECRET_TOKEN_PATTERNS))\<close>: the alternation
  of the patterns, in the order of the list.
\<close>

definition token_union :: rx where
  "token_union = alts SECRET_TOKEN_PATTERNS"

text \<open>
  \<^verbatim>\<open>
  KV_VALUE_PATTERNS = [
      (re.compile(
          r'([A-Za-z0-9_.-]{2,}\s*[:=]\s*)(["\']?)([A-Za-z0-9_\-\/\+=]{16,})(\2)'),
       1, 2, 3, 4),
      (re.compile(
          r'((?:export\s+)?[A-Za-z0-9_.-]{2,}\s*[:=]\s*)(["\'`]?)(sk-[A-Za-z0-9]{8,48})(\2)',
          re.IGNORECASE),
       1, 2, 3, 4),
  ]
  \<close>
  The quote characters are the code points 34, 39 and 96. The backreference of the
  second pattern is under \<open>IGNORECASE\<close>; what it refers to is a quote character or
  nothing, which has no case.
\<close>

definition kv_general :: rx where
  "kv_general =
     seq [Grp 1 (seq [Rep 2 None key_cls, Rep 0 None space_cls,
                      Cls [one CHR '':'', one CHR ''=''], Rep 0 None space_cls]),
          Grp 2 (Rep 0 (Some 1) [(34, 34), (39, 39)]),
          Grp 3 (Rep 16 None value_cls),
          Grp 4 (Backref 2)]"

definition kv_sk :: rx where
  "kv_sk =
     seq [Grp 1 (seq [Opt (seq [ilit ''export'', Rep 1 None space_cls]),
                      Rep 2 None (key_cls @ ignorecase_extra), Rep 0 None space_cls,
                      Cls [one CHR '':'', one CHR ''=''], Rep 0 None space_cls]),
          Grp 2 (Rep 0 (Some 1) [(34, 34), (39, 39), (96, 96)]),
          Grp 3 (seq [ilit ''sk-'', Rep 8 (Some 48) (alnum @ ignorecase_extra)]),
          Grp 4 (Backref 2)]"

definition KV_VALUE_PATTERNS :: "rx list" where
  "KV_VALUE_PATTERNS = [kv_general, kv_sk]"

text \<open>
  \<^verbatim>\<open>
  def _sanitize_text(s: str) -> Tuple[str, bool]:
      changed = False
      for rx, g_prefix, g_open, g_value, g_suffix in KV_VALUE_PATTERNS:
          def repl(m):
              nonlocal changed
              changed = True
              openq = m.group(g_open) or ''
              closeq = m.group(g_suffix) or ''
              return m.group(g_prefix) + openq +"api_key" + closeq
          s2 = rx.sub(repl, s)
          s, changed = s2, (changed or s2 != s)
      before = s
      token_union = re.compile('|'.join(f'(?:{p})' for p in SECRET_TOKEN_PATTERNS))
      s = token_union.sub('api_key', s)
      if s != before:
          changed = True
      return s, changed
  \<close>
  \<open>repl\<close> is called once for every match, so it sets \<open>changed\<close> exactly when the
  pattern has a match. Group 1 takes part in every match of both patterns, so
  \<open>m.group(g_prefix)\<close> is a string.
\<close>

definition kv_repl :: "groups \<Rightarrow> ustr" where
  "kv_repl g = group g 1 @ group g 2 @ str ''api_key'' @ group g 4"

definition kv_step :: "(uchar \<Rightarrow> bool) \<Rightarrow> ustr \<times> bool \<Rightarrow> rx \<Rightarrow> ustr \<times> bool" where
  "kv_step w sc r =
     (case sc of
        (s, changed) \<Rightarrow>
          (re_sub w r kv_repl s, (changed \<or> matches_from w r s 0 \<noteq> []) \<or> re_sub w r kv_repl s \<noteq> s))"

definition sanitize_text :: "(uchar \<Rightarrow> bool) \<Rightarrow> ustr \<Rightarrow> ustr \<times> bool" where
  "sanitize_text w s =
     (case foldl (kv_step w) (s, False) KV_VALUE_PATTERNS of
        (before_tokens, changed) \<Rightarrow>
          (re_sub w token_union (\<lambda>_. str ''api_key'') before_tokens,
           changed \<or> re_sub w token_union (\<lambda>_. str ''api_key'') before_tokens \<noteq> before_tokens))"

section \<open>Bytes and UTF-8\<close>

text \<open>
  A Python \<open>bytes\<close> object is modelled as a list of natural numbers, its elements below
  256. \<open>utf8_decode\<close> is \<open>data.decode("utf-8")\<close>: the strict decoder, which accepts
  exactly the well-formed byte sequences of Unicode (no overlong form, no surrogate,
  nothing beyond U+10FFFF) and raises \<open>UnicodeDecodeError\<close> (\<open>None\<close>) on every other
  input.
\<close>

type_synonym bytes = "nat list"

definition is_cont :: "nat \<Rightarrow> bool" where
  "is_cont b \<longleftrightarrow> 128 \<le> b \<and> b \<le> 191"

text \<open>The range of the second byte after the lead byte of a 3-byte and of a 4-byte form.\<close>

definition second_of_3 :: "nat \<Rightarrow> nat \<Rightarrow> bool" where
  "second_of_3 b c \<longleftrightarrow>
     (if b = 224 then 160 \<le> c \<and> c \<le> 191
      else if b = 237 then 128 \<le> c \<and> c \<le> 159
      else 128 \<le> c \<and> c \<le> 191)"

definition second_of_4 :: "nat \<Rightarrow> nat \<Rightarrow> bool" where
  "second_of_4 b c \<longleftrightarrow>
     (if b = 240 then 144 \<le> c \<and> c \<le> 191
      else if b = 244 then 128 \<le> c \<and> c \<le> 143
      else 128 \<le> c \<and> c \<le> 191)"

fun utf8_decode :: "bytes \<Rightarrow> ustr option" where
  "utf8_decode [] = Some []"
| "utf8_decode (b # bs) =
     (if b < 128 then map_option ((#) b) (utf8_decode bs)
      else if 194 \<le> b \<and> b \<le> 223 then
        (case bs of
           c1 # r \<Rightarrow>
             if is_cont c1
             then map_option ((#) ((b - 192) * 64 + (c1 - 128))) (utf8_decode r)
             else None
         | _ \<Rightarrow> None)
      else if 224 \<le> b \<and> b \<le> 239 then
        (case bs of
           c1 # c2 # r \<Rightarrow>
             if second_of_3 b c1 \<and> is_cont c2
             then map_option ((#) ((b - 224) * 4096 + (c1 - 128) * 64 + (c2 - 128)))
                    (utf8_decode r)
             else None
         | _ \<Rightarrow> None)
      else if 240 \<le> b \<and> b \<le> 244 then
        (case bs of
           c1 # c2 # c3 # r \<Rightarrow>
             if second_of_4 b c1 \<and> is_cont c2 \<and> is_cont c3
             then map_option
                    ((#) ((b - 240) * 262144 + (c1 - 128) * 4096 + (c2 - 128) * 64 + (c3 - 128)))
                    (utf8_decode r)
             else None
         | _ \<Rightarrow> None)
      else None)"

text \<open>
  The encoder of one code point: \<open>None\<close> for what UTF-8 cannot encode, a surrogate
  (U+D800 to U+DFFF) or a number beyond U+10FFFF. \<open>utf8_encode\<close> is
  \<open>s.encode("utf-8")\<close>, which raises \<open>UnicodeEncodeError\<close> (\<open>None\<close>) on a surrogate;
  \<open>utf8_encode_ignore\<close> is \<open>s.encode("utf-8", errors="ignore")\<close>, which leaves it out.
\<close>

definition utf8_encode_char :: "uchar \<Rightarrow> bytes option" where
  "utf8_encode_char c =
     (if c < 128 then Some [c]
      else if c < 2048 then Some [192 + c div 64, 128 + c mod 64]
      else if c < 65536 then
        (if 55296 \<le> c \<and> c \<le> 57343 then None
         else Some [224 + c div 4096, 128 + (c div 64) mod 64, 128 + c mod 64])
      else if c < 1114112 then
        Some [240 + c div 262144, 128 + (c div 4096) mod 64, 128 + (c div 64) mod 64,
              128 + c mod 64]
      else None)"

fun utf8_encode :: "ustr \<Rightarrow> bytes option" where
  "utf8_encode [] = Some []"
| "utf8_encode (c # cs) =
     (case utf8_encode_char c of
        None \<Rightarrow> None
      | Some bs \<Rightarrow> map_option ((@) bs) (utf8_encode cs))"

definition utf8_encode_ignore :: "ustr \<Rightarrow> bytes" where
  "utf8_encode_ignore s =
     concat (map (\<lambda>c. case utf8_encode_char c of None \<Rightarrow> [] | Some bs \<Rightarrow> bs) s)"

text \<open>
  \<^verbatim>\<open>
  def _is_probably_text(data: bytes) -> bool:
      if b"\x00" in data:
          return False
      try:
          data.decode("utf-8")
          return True
      except UnicodeDecodeError:
          return False
  \<close>
\<close>

definition is_probably_text :: "bytes \<Rightarrow> bool" where
  "is_probably_text data = (if 0 \<in> set data then False else utf8_decode data \<noteq> None)"

section \<open>The repository and the two passes over the staging area\<close>

text \<open>
  The state that the passes read and write: the index (the entries of stage 0, each a
  file mode and the id of a blob), the object store (blob id to content) and the working
  tree (path to content).
\<close>

type_synonym path = ustr
type_synonym oid = ustr

record repo =
  index :: "path \<Rightarrow> (nat \<times> oid) option"
  objects :: "oid \<Rightarrow> bytes option"
  worktree :: "path \<Rightarrow> bytes option"

text \<open>
  What lies outside the two functions, as a record of the environment:
  \<^item> \<open>api_key\<close>, the configuration string;
  \<^item> \<open>word_table\<close>, the alphanumeric code points beyond ASCII (see \<open>is_word\<close>);
  \<^item> \<open>git_show\<close>, what \<open>repo.git.show(':path')\<close> returns for a staged blob's content,
    \<open>None\<close> when the call raises;
  \<^item> \<open>hash_object\<close>, the id that \<open>git hash-object -w --stdin\<close> prints for the content
    written for a path, \<open>None\<close> when its return code is not 0;
  \<^item> \<open>update_index_ok\<close>, whether \<open>git update-index --cacheinfo\<close> returns 0;
  \<^item> \<open>client_ok\<close>, whether \<open>genai.Client(...)\<close> returns (it is called once, before
    the loop of the semantic pass, outside every \<open>try\<close>);
  \<^item> \<open>llm\<close>, the reply of the reasoning service to a chunk: the text of the exception
    it raises (\<open>Inl\<close>), or the text of its response.
\<close>

record env =
  api_key :: ustr
  word_table :: "uchar \<Rightarrow> bool"
  git_show :: "bytes \<Rightarrow> ustr option"
  hash_object :: "path \<Rightarrow> bytes \<Rightarrow> oid option"
  update_index_ok :: "path \<Rightarrow> oid \<Rightarrow> bool"
  client_ok :: bool
  llm :: "ustr \<Rightarrow> ustr + ustr"

text \<open>
  Reading the staged content of a path whose entry is in the index, in both passes:
  \<^verbatim>\<open>
  try:
      raw = repo.git.show(f':{path_str}')
      data = raw.encode('utf-8', errors='ignore')
  except:
      wt = (root / path_str)
      if not wt.exists() or not wt.is_file():
          continue
      data = wt.read_bytes()
  \<close>
  \<open>None\<close> stands for the \<open>continue\<close>.
\<close>

definition read_data :: "env \<Rightarrow> repo \<Rightarrow> path \<Rightarrow> bytes option" where
  "read_data en st p =
     (case (case index st p of
              None \<Rightarrow> None
            | Some (mode, blob) \<Rightarrow>
                (case objects st blob of None \<Rightarrow> None | Some content \<Rightarrow> git_show en content)) of
        Some raw \<Rightarrow> Some (utf8_encode_ignore raw)
      | None \<Rightarrow> worktree st p)"

text \<open>
  The two commands that write. \<open>write_blob\<close> is \<open>git hash-object -w --stdin\<close>: it
  stores the content under its id, or fails and stores nothing. \<open>repoint\<close> is
  \<open>git update-index --cacheinfo mode blob path\<close>: it sets the entry of the path, or
  fails and leaves the index as it is. Neither touches the working tree.
\<close>

definition write_blob :: "env \<Rightarrow> repo \<Rightarrow> path \<Rightarrow> bytes \<Rightarrow> repo \<times> oid option" where
  "write_blob en st p content =
     (case hash_object en p content of
        None \<Rightarrow> (st, None)
      | Some blob \<Rightarrow> (st\<lparr>objects := (objects st)(blob \<mapsto> content)\<rparr>, Some blob))"

definition repoint :: "env \<Rightarrow> repo \<Rightarrow> nat \<Rightarrow> oid \<Rightarrow> path \<Rightarrow> repo \<times> bool" where
  "repoint en st mode blob p =
     (if update_index_ok en p blob then (st\<lparr>index := (index st)(p \<mapsto> (mode, blob))\<rparr>, True)
      else (st, False))"

text \<open>
  What one iteration of a pass yields: the repository after it, and either the
  exception that leaves the function or the entries the iteration appends to the pass's
  result list with the texts it handed to the detector (to \<open>_sanitize_text\<close> in the
  pattern pass, to the reasoning service in the semantic pass). The repository is part
  of the result also when the function is left by an exception: what was written before
  stays written.
\<close>

type_synonym 'r step = "repo \<times> (exn + 'r list \<times> ustr list)"





text \<open>
  The call of \<open>_chunk_text\<close> in the semantic pass (line 326) is
  \<open>_chunk_text(text, max_chars=api_key, overlap=200)\<close>: the parameter \<open>max_chars\<close> is
  bound to the configuration string. The first statement of \<open>_chunk_text\<close>,
  \<open>if len(s) <= max_chars\<close>, then compares an integer with a string, which raises
  \<open>TypeError\<close>. \<open>chunk_text_py\<close> is \<open>_chunk_text\<close> with either kind of argument; with
  an integer it is \<open>chunk_text\<close>.
\<close>

datatype py_value = Py_int nat | Py_str ustr

definition chunk_text_py ::
  "ustr \<Rightarrow> py_value \<Rightarrow> nat \<Rightarrow> (exn + (nat \<times> ustr) list) option" where
  "chunk_text_py s max_chars overlap =
     (case max_chars of
        Py_str _ \<Rightarrow> Some (Inl TypeError)
      | Py_int m \<Rightarrow>
          (case chunk_text s m overlap of None \<Rightarrow> None | Some chunks \<Rightarrow> Some (Inr chunks)))"

text \<open>
  The loop over the chunks of one file in \<open>llm_scan_staged_secrets_in_index\<close>:
  \<^verbatim>\<open>
  for base, chunk in chunks:
      try:
          resp = client.models.generate_content(...)
          resp_text = getattr(resp, "text", "") or ""
          findings = api_key(resp_text)
          for f in tqdm(findings, ...):
              ... the body modelled by map_finding ...
      except Exception as e:
          notes.append(f"LLM error on chunk: {e}")
  \<close>
  Every chunk is sent to the service once. The statement that gives \<open>findings\<close> its
  value (line 351) is a call of the configuration string, inside the \<open>try\<close>: its
  exception becomes a note, like an exception of the service. The result is
  \<open>all_ranges\<close>, \<open>notes\<close> and the chunks sent.
\<close>

fun scan_chunks ::
  "env \<Rightarrow> path \<Rightarrow> (nat \<times> ustr) list \<Rightarrow> (nat \<times> nat) list \<times> ustr list \<times> ustr list" where
  "scan_chunks en p [] = ([], [], [])"
| "scan_chunks en p ((base, chunk) # cs) =
     (case scan_chunks en p cs of
        (ranges, notes, sent) \<Rightarrow>
          (case llm en chunk of
             Inl e \<Rightarrow> (ranges, (str ''LLM error on chunk: '' @ e) # notes, chunk # sent)
           | Inr resp_text \<Rightarrow>
               (case call_str (api_key en) of
                  Inl e \<Rightarrow>
                    (ranges, (str ''LLM error on chunk: '' @ not_callable) # notes, chunk # sent)
                | Inr findings \<Rightarrow>
                    (case map_findings p base chunk findings of
                       (rs, ns) \<Rightarrow> (rs @ ranges, ns @ notes, chunk # sent)))))"

text \<open>
  The body of the loop over the staged paths of \<open>llm_scan_staged_secrets_in_index\<close>:
  \<^verbatim>\<open>
  if (path_str, 0) not in repo.index.entries:
      continue
  ... read data (above) ...
  if not _is_probably_text(data):
      continue
  text = data.decode('utf-8', errors='replace')
  chunks = _chunk_text(text, max_chars=api_key, overlap=200)
  ... all_ranges, notes from the chunks (above) ...
  if not all_ranges:
      continue
  new_text = api_key(text, all_ranges, replacement='api_key_llm')
  if new_text == text:
      continue
  p1 = subprocess.run(['git', 'hash-object', '-w', '--stdin'], ...,
                      input=new_text.encode('utf-8'), ...)
  if p1.returncode != 0:
      results.append({"path": path_str, "replaced_count": 0,
                      "notes": notes + ['hash-object failed']})
      continue
  blob_id = p1.stdout.decode().strip()
  mode = api_key(repo, path_str)
  p2 = subprocess.run(['git', 'update-index', '--cacheinfo', mode, blob_id, path_str], ...)
  if p2.returncode == 0:
      results.append({"path": path_str, "replaced_count": len(all_ranges), "notes": notes})
  else:
      results.append({"path": path_str, "replaced_count": 0,
                      "notes": notes + ["update-index failed"]})
  \<close>
  The statements that give \<open>new_text\<close> and \<open>mode\<close> their values (lines 381 and 400)
  are calls of the configuration string, under no handler. The outer \<open>None\<close> stands
  for a call of \<open>_chunk_text\<close> that does not return. \<open>llm_rewrite\<close> is the part from
  \<open>hash-object\<close> on, \<open>llm_text\<close> the part from \<open>_chunk_text\<close> on.
\<close>

definition llm_rewrite ::
  "env \<Rightarrow> repo \<Rightarrow> path \<Rightarrow> ustr \<Rightarrow> (nat \<times> nat) list \<Rightarrow> ustr list \<Rightarrow> ustr list
     \<Rightarrow> llm_result step" where
  "llm_rewrite en st p new_text all_ranges notes sent =
     (case utf8_encode new_text of
        None \<Rightarrow> (st, Inl UnicodeEncodeError)
      | Some content \<Rightarrow>
          (case write_blob en st p content of
             (st1, None) \<Rightarrow>
               (st1,
                Inr ([\<lparr>lr_path = p, lr_replaced_count = 0,
                       lr_notes = notes @ [str ''hash-object failed'']\<rparr>],
                     sent))
           | (st1, Some blob) \<Rightarrow>
               (case call_str (api_key en) of
                  Inl e \<Rightarrow> (st1, Inl e)
                | Inr mode \<Rightarrow>
                    (case repoint en st1 mode blob p of
                       (st2, True) \<Rightarrow>
                         (st2,
                          Inr ([\<lparr>lr_path = p, lr_replaced_count = length all_ranges,
                                 lr_notes = notes\<rparr>],
                               sent))
                     | (st2, False) \<Rightarrow>
                         (st2,
                          Inr ([\<lparr>lr_path = p, lr_replaced_count = 0,
                                 lr_notes = notes @ [str ''update-index failed'']\<rparr>],
                               sent))))))"

definition llm_text :: "env \<Rightarrow> repo \<Rightarrow> path \<Rightarrow> ustr \<Rightarrow> llm_result step option" where
  "llm_text en st p text =
     (case chunk_text_py text (Py_str (api_key en)) 200 of
        None \<Rightarrow> None
      | Some (Inl e) \<Rightarrow> Some (st, Inl e)
      | Some (Inr chunks) \<Rightarrow>
          (case scan_chunks en p chunks of
             (all_ranges, notes, sent) \<Rightarrow>
               if all_ranges = [] then Some (st, Inr ([], sent))
               else
                 (case call_str (api_key en) of
                    Inl e \<Rightarrow> Some (st, Inl e)
                  | Inr new_text \<Rightarrow>
                      if new_text = text then Some (st, Inr ([], sent))
                      else Some (llm_rewrite en st p new_text all_ranges notes sent))))"

definition llm_file :: "env \<Rightarrow> repo \<Rightarrow> path \<Rightarrow> llm_result step option" where
  "llm_file en st p =
     (if index st p = None then Some (st, Inr ([], []))
      else
        (case read_data en st p of
           None \<Rightarrow> Some (st, Inr ([], []))
         | Some data \<Rightarrow>
             if \<not> is_probably_text data then Some (st, Inr ([], []))
             else
               (case utf8_decode data of
                  None \<Rightarrow> Some (st, Inr ([], []))
                | Some text \<Rightarrow> llm_text en st p text)))"

fun llm_loop ::
  "env \<Rightarrow> repo \<times> llm_result list \<times> ustr list \<Rightarrow> path list \<Rightarrow> llm_result step option" where
  "llm_loop en (st, results, sent) [] = Some (st, Inr (results, sent))"
| "llm_loop en (st, results, sent) (p # ps) =
     (case llm_file en st p of
        None \<Rightarrow> None
      | Some (st', Inl e) \<Rightarrow> Some (st', Inl e)
      | Some (st', Inr (new, seen)) \<Rightarrow> llm_loop en (st', results @ new, sent @ seen) ps)"

text \<open>
  \<open>llm_scan_staged_secrets_in_index\<close>: nothing to do without staged paths; otherwise
  the client is made, and the loop runs. No statement of the checked-in function reads
  its parameter \<open>max_chars_per_call\<close>.
\<close>

definition llm_scan_staged_secrets_in_index ::
  "env \<Rightarrow> nat \<Rightarrow> repo \<Rightarrow> path list \<Rightarrow> llm_result step option" where
  "llm_scan_staged_secrets_in_index en max_chars_per_call st staged_paths =
     (if staged_paths = [] then Some (st, Inr ([], []))
      else if \<not> client_ok en then Some (st, Inl Other_exception)
      else llm_loop en (st, [], []) staged_paths)"
section \<open>Auxiliary notions used in the proofs\<close>

text \<open>
  \<open>chain s M ov i cs\<close>: the list \<open>cs\<close> is the sequence of chunks that the loop of
  \<open>chunk_text\<close> appends when it is entered at index \<open>i\<close>.
\<close>

fun chain :: "'a list \<Rightarrow> nat \<Rightarrow> nat \<Rightarrow> nat \<Rightarrow> (nat \<times> 'a list) list \<Rightarrow> bool" where
  "chain s M ov i [] = False"
| "chain s M ov i ((off, t) # rest) =
     (off = i \<and> i < length s \<and> t = slice s i (min (i + M) (length s)) \<and>
      (if length s \<le> i + M then rest = [] else chain s M ov (i + M - ov) rest))"


text \<open>
  \<open>minlen r\<close>: a lower bound on the length of every match of \<open>r\<close>.
  \<open>groupless r\<close>: \<open>r\<close> has no capturing group.
\<close>

fun minlen :: "rx \<Rightarrow> nat" where
  "minlen Eps = 0"
| "minlen (Cls c) = 1"
| "minlen (Rep lo hi c) = lo"
| "minlen (Seq a b) = minlen a + minlen b"
| "minlen (Alt a b) = min (minlen a) (minlen b)"
| "minlen (Opt a) = 0"
| "minlen (Grp n a) = minlen a"
| "minlen (Backref n) = 0"
| "minlen Word_boundary = 0"
| "minlen (Not_behind c) = 0"
| "minlen (Not_ahead c) = 0"

fun groupless :: "rx \<Rightarrow> bool" where
  "groupless (Seq a b) = (groupless a \<and> groupless b)"
| "groupless (Alt a b) = (groupless a \<and> groupless b)"
| "groupless (Opt a) = groupless a"
| "groupless (Grp n a) = False"
| "groupless r = True"

text \<open>
  The sequence and group cases of \<open>ms\<close> as functions of the list of matches of the
  first part, for evaluating \<open>ms\<close> on a given text one match at a time.
\<close>

definition then_ms :: "(uchar \<Rightarrow> bool) \<Rightarrow> rx \<Rightarrow> ustr \<Rightarrow> (nat \<times> groups) list \<Rightarrow> (nat \<times> groups) list" where
  "then_ms w b s xs = concat (map (\<lambda>(j, g'). ms w b s j g') xs)"

definition grp_ms :: "nat \<Rightarrow> ustr \<Rightarrow> nat \<Rightarrow> (nat \<times> groups) list \<Rightarrow> (nat \<times> groups) list" where
  "grp_ms n s i xs = map (\<lambda>(j, g'). (j, (n, slice s i j) # g')) xs"



section \<open>A repository and an environment for the runs shown below\<close>

text \<open>
  \<open>example_repo data\<close> has one staged file, \<open>.env\<close>, whose blob and working-tree copy
  both hold \<open>data\<close>. In \<open>example_env h\<close> the words of the matcher are the ASCII ones,
  \<open>git show\<close> returns the blob decoded strictly (and raises on a blob that is not
  UTF-8), and \<open>h\<close> is the answer of \<open>git hash-object\<close>.
\<close>

definition example_repo :: "bytes \<Rightarrow> repo" where
  "example_repo data =
     \<lparr>index = [str ''.env'' \<mapsto> (33188, str ''b0'')],
      objects = [str ''b0'' \<mapsto> data],
      worktree = [str ''.env'' \<mapsto> data]\<rparr>"

definition example_env :: "(path \<Rightarrow> bytes \<Rightarrow> oid option) \<Rightarrow> env" where
  "example_env h =
     \<lparr>api_key = str ''k'', word_table = (\<lambda>_. False), git_show = utf8_decode, hash_object = h,
      update_index_ok = (\<lambda>_ _. True), client_ok = True, llm = (\<lambda>_. Inr [])\<rparr>"
chapter \<open>Properties\<close>

section \<open>Chunking\<close>

lemma chunk_loop_chain:
  assumes "ov < M"
  shows "i < length s \<Longrightarrow> \<exists>cs. chunk_loop s M ov i out = Some (out @ cs) \<and> chain s M ov i cs"
proof (induction "length s - i" arbitrary: i out rule: less_induct)
  case less
  show ?case
  proof (cases "length s \<le> i + M")
    case True
    then have "chunk_loop s M ov i out = Some (out @ [(i, slice s i (min (i + M) (length s)))])"
      using less.prems by (subst chunk_loop.simps) (simp add: min_def)
    moreover have "chain s M ov i [(i, slice s i (min (i + M) (length s)))]"
      using True less.prems by simp
    ultimately show ?thesis by blast
  next
    case False
    let ?c = "(i, slice s i (min (i + M) (length s)))"
    have step: "chunk_loop s M ov i out = chunk_loop s M ov (i + M - ov) (out @ [?c])"
      using False less.prems by (subst chunk_loop.simps) (simp add: min_def)
    have lt: "i + M - ov < length s" using False by simp
    have dec: "length s - (i + M - ov) < length s - i" using assms less.prems by arith
    from less.hyps[OF dec lt, of "out @ [?c]"]
    obtain cs where cs: "chunk_loop s M ov (i + M - ov) (out @ [?c]) = Some ((out @ [?c]) @ cs)"
      "chain s M ov (i + M - ov) cs" by blast
    have "chain s M ov i (?c # cs)" using False less.prems cs(2) by simp
    with step cs(1) show ?thesis by (intro exI[of _ "?c # cs"]) simp
  qed
qed

lemma chain_hd: "chain s M ov i cs \<Longrightarrow> cs \<noteq> [] \<and> fst (hd cs) = i"
  by (cases cs) auto

lemma chain_members:
  "chain s M ov i cs \<Longrightarrow> (off, t) \<in> set cs \<Longrightarrow>
     off < length s \<and> off + length t \<le> length s \<and> t = slice s off (off + length t)
       \<and> length t = min M (length s - off)"
proof (induction cs arbitrary: i)
  case Nil then show ?case by simp
next
  case (Cons c cs)
  obtain o' t' where c: "c = (o', t')" by (cases c)
  show ?case
  proof (cases "(off, t) = c")
    case True
    then show ?thesis using Cons.prems(1) c by (auto simp: slice_def min_def)
  next
    case False
    then have "(off, t) \<in> set cs" using Cons.prems(2) by simp
    moreover have "chain s M ov (i + M - ov) cs"
      using Cons.prems(1) c calculation by (auto split: if_splits)
    ultimately show ?thesis using Cons.IH by blast
  qed
qed

lemma chain_step:
  "chain s M ov i cs \<Longrightarrow> ov < M \<Longrightarrow> Suc k < length cs \<Longrightarrow>
     fst (cs ! Suc k) + ov = fst (cs ! k) + length (snd (cs ! k))"
proof (induction cs arbitrary: i k)
  case Nil then show ?case by simp
next
  case (Cons c cs)
  obtain o' t' where c: "c = (o', t')" by (cases c)
  from Cons.prems(3) have ne: "cs \<noteq> []" by auto
  then have nl: "\<not> length s \<le> i + M" and ch: "chain s M ov (i + M - ov) cs"
    using Cons.prems(1) c by (auto split: if_splits)
  show ?case
  proof (cases k)
    case 0
    have "fst (cs ! 0) = i + M - ov" using chain_hd[OF ch] by (cases cs) auto
    moreover have "length t' = M" using Cons.prems(1) c nl by (auto simp: slice_def min_def)
    ultimately show ?thesis using 0 c Cons.prems(1,2) by auto
  next
    case (Suc k')
    then show ?thesis using Cons.IH[OF ch Cons.prems(2), of k'] Cons.prems(3) by simp
  qed
qed

lemma chain_last:
  "chain s M ov i cs \<Longrightarrow> fst (last cs) + length (snd (last cs)) = length s"
proof (induction cs arbitrary: i)
  case Nil then show ?case by simp
next
  case (Cons c cs)
  obtain o' t' where c: "c = (o', t')" by (cases c)
  show ?case
  proof (cases "cs = []")
    case True
    then show ?thesis using Cons.prems c by (auto simp: slice_def min_def split: if_splits)
  next
    case False
    then have "chain s M ov (i + M - ov) cs" using Cons.prems c by (auto split: if_splits)
    then show ?thesis using Cons.IH False by simp
  qed
qed

lemma chain_contains:
  "chain s M ov i cs \<Longrightarrow> i \<le> a \<Longrightarrow> a \<le> b \<Longrightarrow> b \<le> length s \<Longrightarrow> b - a \<le> ov \<Longrightarrow>
     \<exists>(off, t) \<in> set cs. off \<le> a \<and> b \<le> off + length t"
proof (induction cs arbitrary: i)
  case Nil then show ?case by simp
next
  case (Cons c cs)
  obtain o' t' where c: "c = (o', t')" by (cases c)
  have o': "o' = i" and t': "length t' = min M (length s - i)"
    using Cons.prems(1) c by (auto simp: slice_def min_def)
  show ?case
  proof (cases "b \<le> i + length t'")
    case True
    then show ?thesis using c o' Cons.prems(2) by auto
  next
    case False
    then have nl: "\<not> length s \<le> i + M" using t' Cons.prems(4) by (auto simp: min_def split: if_splits)
    then have ch: "chain s M ov (i + M - ov) cs" using Cons.prems(1) c by auto
    have "i + M - ov \<le> a" using False t' nl Cons.prems(3,5) by (auto simp: min_def split: if_splits)
    from Cons.IH[OF ch this Cons.prems(3,4,5)] show ?thesis by auto
  qed
qed

lemma chain_covers:
  "chain s M ov i cs \<Longrightarrow> i \<le> p \<Longrightarrow> p < length s \<Longrightarrow>
     \<exists>(off, t) \<in> set cs. off \<le> p \<and> p < off + length t"
proof (induction cs arbitrary: i)
  case Nil then show ?case by simp
next
  case (Cons c cs)
  obtain o' t' where c: "c = (o', t')" by (cases c)
  have o': "o' = i" and t': "length t' = min M (length s - i)"
    using Cons.prems(1) c by (auto simp: slice_def min_def)
  show ?case
  proof (cases "p < i + length t'")
    case True
    then show ?thesis using c o' Cons.prems(2) by auto
  next
    case False
    then have nl: "\<not> length s \<le> i + M" using t' Cons.prems(3) by (auto simp: min_def split: if_splits)
    then have ch: "chain s M ov (i + M - ov) cs" using Cons.prems(1) c by auto
    have "i + M - ov \<le> p" using False t' nl by (auto simp: min_def split: if_splits)
    from Cons.IH[OF ch this Cons.prems(3)] show ?thesis by auto
  qed
qed

text \<open>
  Claim C7. With the default parameters (maximum size 60000, overlap 200) \<open>chunk_text\<close>
  returns the single chunk \<open>(0, s)\<close> when the text has at most 60000 characters.
  Otherwise it returns, and of the chunks it returns: each is the slice of the text at
  its offset and has 60000 characters, or all that is left of the text from its offset
  when that is less (so no chunk is longer than 60000); the first one starts at 0; every
  position of the text lies in some chunk; every chunk after the first starts exactly 200
  characters before the end of its predecessor; the last chunk ends at the end of the
  text; and every span of at most 200 characters lies wholly inside one chunk.
\<close>

theorem chunk_text_default_parameters:
  fixes s :: "'a list"
  shows "(length s \<le> 60000 \<longrightarrow> chunk_text s 60000 200 = Some [(0, s)]) \<and>
    (60000 < length s \<longrightarrow>
      (\<exists>cs. chunk_text s 60000 200 = Some cs \<and> cs \<noteq> [] \<and> fst (hd cs) = 0 \<and>
         (\<forall>(off, t) \<in> set cs. off < length s \<and> length t = min 60000 (length s - off) \<and>
              length t \<le> 60000 \<and> t = slice s off (off + length t)) \<and>
         (\<forall>p < length s. \<exists>(off, t) \<in> set cs. off \<le> p \<and> p < off + length t) \<and>
         (\<forall>k. Suc k < length cs \<longrightarrow>
              fst (cs ! Suc k) + 200 = fst (cs ! k) + length (snd (cs ! k))) \<and>
         fst (last cs) + length (snd (last cs)) = length s \<and>
         (\<forall>a b. a \<le> b \<and> b \<le> length s \<and> b - a \<le> 200 \<longrightarrow>
              (\<exists>(off, t) \<in> set cs. off \<le> a \<and> b \<le> off + length t))))"
proof (intro conjI impI)
  assume "length s \<le> 60000"
  then show "chunk_text s 60000 200 = Some [(0, s)]" by (simp add: chunk_text_def)
next
  assume big: "60000 < length s"
  then have pos: "0 < length s" by linarith
  have ov: "(200::nat) < 60000" by simp
  from chunk_loop_chain[OF ov pos, of "[]"]
  obtain cs where run: "chunk_loop s 60000 200 0 [] = Some cs" and ch: "chain s 60000 200 0 cs"
    by auto
  have r: "chunk_text s 60000 200 = Some cs" using big run by (simp add: chunk_text_def)
  have m: "\<forall>(off, t) \<in> set cs. off < length s \<and> length t = min 60000 (length s - off) \<and>
              length t \<le> 60000 \<and> t = slice s off (off + length t)"
  proof (clarify, intro conjI)
    fix off t assume mem: "(off, t) \<in> set cs"
    from chain_members[OF ch mem]
    show "off < length s" "length t = min 60000 (length s - off)"
      "t = slice s off (off + length t)" by blast+
    then show "length t \<le> 60000" by simp
  qed
  have c: "\<forall>p < length s. \<exists>(off, t) \<in> set cs. off \<le> p \<and> p < off + length t"
    using chain_covers[OF ch] by simp
  have st: "\<forall>k. Suc k < length cs \<longrightarrow>
              fst (cs ! Suc k) + 200 = fst (cs ! k) + length (snd (cs ! k))"
    using chain_step[OF ch ov] by blast
  have ct: "\<forall>a b. a \<le> b \<and> b \<le> length s \<and> b - a \<le> 200 \<longrightarrow>
              (\<exists>(off, t) \<in> set cs. off \<le> a \<and> b \<le> off + length t)"
    using chain_contains[OF ch] by simp
  show "\<exists>cs. chunk_text s 60000 200 = Some cs \<and> cs \<noteq> [] \<and> fst (hd cs) = 0 \<and>
         (\<forall>(off, t) \<in> set cs. off < length s \<and> length t = min 60000 (length s - off) \<and>
              length t \<le> 60000 \<and> t = slice s off (off + length t)) \<and>
         (\<forall>p < length s. \<exists>(off, t) \<in> set cs. off \<le> p \<and> p < off + length t) \<and>
         (\<forall>k. Suc k < length cs \<longrightarrow>
              fst (cs ! Suc k) + 200 = fst (cs ! k) + length (snd (cs ! k))) \<and>
         fst (last cs) + length (snd (last cs)) = length s \<and>
         (\<forall>a b. a \<le> b \<and> b \<le> length s \<and> b - a \<le> 200 \<longrightarrow>
              (\<exists>(off, t) \<in> set cs. off \<le> a \<and> b \<le> off + length t))"
    using r chain_hd[OF ch] m c st chain_last[OF ch] ct by blast
qed

theorem chunk_text_default_parameters_witness:
  "length (replicate 60001 (7::nat)) = 60001 \<and>
   chunk_text (replicate 60001 (7::nat)) 60000 200 =
     Some [(0, replicate 60000 7), (59800, replicate 201 7)] \<and>
   chunk_text (str ''abc'') 60000 200 = Some [(0, str ''abc'')]"
proof -
  let ?s = "replicate 60001 (7::nat)"
  have big: "60000 < length ?s" by simp
  have small: "length (str ''abc'') \<le> 60000" by (simp add: str_def)
  from chunk_text_default_parameters[of ?s] big
  obtain cs where r: "chunk_text ?s 60000 200 = Some cs" and ne: "cs \<noteq> []"
    and h: "fst (hd cs) = 0"
    and m: "\<forall>(off, t) \<in> set cs. off < length ?s \<and> length t = min 60000 (length ?s - off) \<and>
              length t \<le> 60000 \<and> t = slice ?s off (off + length t)"
    and st: "\<forall>k. Suc k < length cs \<longrightarrow>
              fst (cs ! Suc k) + 200 = fst (cs ! k) + length (snd (cs ! k))"
    and l: "fst (last cs) + length (snd (last cs)) = length ?s"
    by blast
  have run: "chunk_text ?s 60000 200 = Some [(0, replicate 60000 7), (59800, replicate 201 7)]"
    by (simp add: chunk_text_def chunk_loop.simps slice_def)
  from r run have eq: "cs = [(0, replicate 60000 7), (59800, replicate 201 7)]" by simp
  from r eq have big_run:
    "chunk_text ?s 60000 200 = Some [(0, replicate 60000 7), (59800, replicate 201 7)]"
    by simp
  from chunk_text_default_parameters[of "str ''abc''"] small
  have "chunk_text (str ''abc'') 60000 200 = Some [(0, str ''abc'')]" by blast
  then show ?thesis using big_run by simp
qed

text \<open>A run of the loop with small parameters (maximum size 4, overlap 1).\<close>

lemma chunk_text_small_run:
  "chunk_text (str ''abcdefghij'') 4 1 =
     Some [(0, str ''abcd''), (3, str ''defg''), (6, str ''ghij'')]"
  by (simp add: chunk_text_def chunk_loop.simps str_def slice_def)

section \<open>Findings of the semantic pass\<close>

lemma take_eq_imp_le: "take (length ys) xs = ys \<Longrightarrow> length ys \<le> length xs"
proof -
  assume a: "take (length ys) xs = ys"
  have "length (take (length ys) xs) \<le> length xs" by simp
  then show ?thesis unfolding a .
qed

lemma find_str_Some:
  "find_str sub hay = Some i \<Longrightarrow>
     i + length sub \<le> length hay \<and> slice hay i (i + length sub) = sub \<and>
     (\<forall>k<i. slice hay k (k + length sub) \<noteq> sub)"
proof (induction hay arbitrary: i)
  case Nil
  then show ?case by (auto simp: slice_def split: if_splits)
next
  case (Cons c cs)
  show ?case
  proof (cases "take (length sub) (c # cs) = sub")
    case True
    then have "length sub \<le> length (c # cs)"
      by (rule take_eq_imp_le)
    with True Cons.prems show ?thesis by (auto simp: slice_def)
  next
    case False
    with Cons.prems obtain j where j: "find_str sub cs = Some j" "i = Suc j" by auto
    from Cons.IH[OF j(1)] have ih: "j + length sub \<le> length cs"
      "slice cs j (j + length sub) = sub" "\<forall>k<j. slice cs k (k + length sub) \<noteq> sub"
      by auto
    have "\<forall>k<Suc j. slice (c # cs) k (k + length sub) \<noteq> sub"
    proof (intro allI impI)
      fix k assume "k < Suc j"
      show "slice (c # cs) k (k + length sub) \<noteq> sub"
      proof (cases k)
        case 0 then show ?thesis using False by (simp add: slice_def)
      next
        case (Suc k')
        then show ?thesis using ih(3) \<open>k < Suc j\<close> by (simp add: slice_def)
      qed
    qed
    then show ?thesis using ih j(2) by (simp add: slice_def)
  qed
qed

lemma find_str_None:
  "find_str sub hay = None \<Longrightarrow> slice hay k (k + length sub) \<noteq> sub"
proof (induction hay arbitrary: k)
  case Nil
  then show ?case by (auto simp: slice_def split: if_splits)
next
  case (Cons c cs)
  then have a: "take (length sub) (c # cs) \<noteq> sub" and b: "find_str sub cs = None"
    by (auto split: if_splits)
  show ?case
  proof (cases k)
    case 0 then show ?thesis using a by (simp add: slice_def)
  next
    case (Suc k') then show ?thesis using Cons.IH[OF b, of k'] by (simp add: slice_def)
  qed
qed

lemma contains_str_iff:
  "contains_str sub hay \<longleftrightarrow> (\<exists>k. k + length sub \<le> length hay \<and> slice hay k (k + length sub) = sub)"
proof
  assume "contains_str sub hay"
  then obtain i where "find_str sub hay = Some i" by (auto simp: contains_str_def)
  from find_str_Some[OF this] show "\<exists>k. k + length sub \<le> length hay \<and> slice hay k (k + length sub) = sub"
    by blast
next
  assume "\<exists>k. k + length sub \<le> length hay \<and> slice hay k (k + length sub) = sub"
  then show "contains_str sub hay"
    using find_str_None[of sub hay] by (auto simp: contains_str_def)
qed

lemma find_str_first:
  assumes "slice hay i (i + length sub) = sub"
    and "\<forall>k<i. slice hay k (k + length sub) \<noteq> sub"
  shows "find_str sub hay = Some i"
proof (cases "find_str sub hay")
  case None
  from find_str_None[OF this, of i] assms(1) show ?thesis by simp
next
  case (Some j)
  from find_str_Some[OF Some]
  have j: "slice hay j (j + length sub) = sub" "\<forall>k<j. slice hay k (k + length sub) \<noteq> sub"
    by auto
  have "\<not> j < i" using assms(2) j(1) by blast
  moreover have "\<not> i < j" using j(2) assms(1) by blast
  ultimately show ?thesis using Some by simp
qed

lemma relocate_cases:
  "relocate chunk f = (s, e) \<longleftrightarrow>
     (if f_snippet f \<noteq> [] \<and>
         \<not> contains_str (f_snippet f) (slice chunk (nat (f_start f)) (nat (f_end f))) \<and>
         contains_str (f_snippet f) chunk
      then e = s + length (f_snippet f) \<and> slice chunk s e = f_snippet f \<and>
           (\<forall>k<s. slice chunk k (k + length (f_snippet f)) \<noteq> f_snippet f)
      else s = nat (f_start f) \<and> e = nat (f_end f))"
proof (cases "f_snippet f \<noteq> [] \<and>
         \<not> contains_str (f_snippet f) (slice chunk (nat (f_start f)) (nat (f_end f))) \<and>
         contains_str (f_snippet f) chunk")
  case True
  then obtain idx where idx: "find_str (f_snippet f) chunk = Some idx"
    by (auto simp: contains_str_def)
  have r: "relocate chunk f = (idx, idx + length (f_snippet f))"
    using True idx by (simp add: relocate_def Let_def)
  show ?thesis
  proof
    assume "relocate chunk f = (s, e)"
    with r have "s = idx" "e = idx + length (f_snippet f)" by auto
    with find_str_Some[OF idx] True show "if f_snippet f \<noteq> [] \<and>
         \<not> contains_str (f_snippet f) (slice chunk (nat (f_start f)) (nat (f_end f))) \<and>
         contains_str (f_snippet f) chunk
      then e = s + length (f_snippet f) \<and> slice chunk s e = f_snippet f \<and>
           (\<forall>k<s. slice chunk k (k + length (f_snippet f)) \<noteq> f_snippet f)
      else s = nat (f_start f) \<and> e = nat (f_end f)" by simp
  next
    assume "if f_snippet f \<noteq> [] \<and>
         \<not> contains_str (f_snippet f) (slice chunk (nat (f_start f)) (nat (f_end f))) \<and>
         contains_str (f_snippet f) chunk
      then e = s + length (f_snippet f) \<and> slice chunk s e = f_snippet f \<and>
           (\<forall>k<s. slice chunk k (k + length (f_snippet f)) \<noteq> f_snippet f)
      else s = nat (f_start f) \<and> e = nat (f_end f)"
    with True have e: "e = s + length (f_snippet f)"
      and a: "slice chunk s (s + length (f_snippet f)) = f_snippet f"
      and b: "\<forall>k<s. slice chunk k (k + length (f_snippet f)) \<noteq> f_snippet f" by auto
    from find_str_first[OF a b] idx have "idx = s" by simp
    with r e show "relocate chunk f = (s, e)" by simp
  qed
next
  case False
  then have "relocate chunk f = (nat (f_start f), nat (f_end f))"
    by (auto simp: relocate_def Let_def contains_str_def split: option.splits)
  with False show ?thesis by auto
qed

text \<open>
  The body of the loop over the findings of a chunk, as it is written (the checked-in
  source has the loop, and no run that reaches it; see \<open>scan_chunks\<close> and
  \<open>llm_text\<close>). A finding is kept exactly when its declared offsets satisfy
  \<open>0 \<le> start < end < len(chunk)\<close> and the trimmed text of its final span has at least
  8 characters. The final span is the first occurrence of the snippet in the chunk when
  the snippet is not empty, does not occur inside the declared span and occurs in the
  chunk; in every other case, also when the snippet occurs nowhere in the chunk, it is the
  declared span. The range kept is the final span shifted by the chunk's start offset.
\<close>

lemma map_finding_reconciled:
  "map_finding base chunk f = Some (a, b) \<longleftrightarrow>
     0 \<le> f_start f \<and> f_start f < f_end f \<and> f_end f < int (length chunk) \<and>
     (\<exists>s e. a = base + s \<and> b = base + e \<and> 8 \<le> length (strip (slice chunk s e)) \<and>
        (if f_snippet f \<noteq> [] \<and>
            \<not> contains_str (f_snippet f) (slice chunk (nat (f_start f)) (nat (f_end f))) \<and>
            contains_str (f_snippet f) chunk
         then e = s + length (f_snippet f) \<and> slice chunk s e = f_snippet f \<and>
              (\<forall>k<s. slice chunk k (k + length (f_snippet f)) \<noteq> f_snippet f)
         else s = nat (f_start f) \<and> e = nat (f_end f)))"
proof (cases "0 \<le> f_start f \<and> f_start f < f_end f \<and> f_end f < int (length chunk)")
  case False
  then show ?thesis by (auto simp: map_finding_def)
next
  case True
  obtain s0 e0 where r: "relocate chunk f = (s0, e0)" by (cases "relocate chunk f")
  have m: "map_finding base chunk f =
      (if 8 \<le> length (strip (slice chunk s0 e0)) then Some (base + s0, base + e0) else None)"
    using True r by (simp add: map_finding_def)
  show ?thesis
  proof
    assume "map_finding base chunk f = Some (a, b)"
    with m have "8 \<le> length (strip (slice chunk s0 e0))" "a = base + s0" "b = base + e0"
      by (auto split: if_splits)
    with True r[unfolded relocate_cases] show "0 \<le> f_start f \<and> f_start f < f_end f \<and> f_end f < int (length chunk) \<and>
     (\<exists>s e. a = base + s \<and> b = base + e \<and> 8 \<le> length (strip (slice chunk s e)) \<and>
        (if f_snippet f \<noteq> [] \<and>
            \<not> contains_str (f_snippet f) (slice chunk (nat (f_start f)) (nat (f_end f))) \<and>
            contains_str (f_snippet f) chunk
         then e = s + length (f_snippet f) \<and> slice chunk s e = f_snippet f \<and>
              (\<forall>k<s. slice chunk k (k + length (f_snippet f)) \<noteq> f_snippet f)
         else s = nat (f_start f) \<and> e = nat (f_end f)))"
      by blast
  next
    assume "0 \<le> f_start f \<and> f_start f < f_end f \<and> f_end f < int (length chunk) \<and>
     (\<exists>s e. a = base + s \<and> b = base + e \<and> 8 \<le> length (strip (slice chunk s e)) \<and>
        (if f_snippet f \<noteq> [] \<and>
            \<not> contains_str (f_snippet f) (slice chunk (nat (f_start f)) (nat (f_end f))) \<and>
            contains_str (f_snippet f) chunk
         then e = s + length (f_snippet f) \<and> slice chunk s e = f_snippet f \<and>
              (\<forall>k<s. slice chunk k (k + length (f_snippet f)) \<noteq> f_snippet f)
         else s = nat (f_start f) \<and> e = nat (f_end f)))"
    then obtain s e where se: "a = base + s" "b = base + e" "8 \<le> length (strip (slice chunk s e))"
      "if f_snippet f \<noteq> [] \<and>
            \<not> contains_str (f_snippet f) (slice chunk (nat (f_start f)) (nat (f_end f))) \<and>
            contains_str (f_snippet f) chunk
         then e = s + length (f_snippet f) \<and> slice chunk s e = f_snippet f \<and>
              (\<forall>k<s. slice chunk k (k + length (f_snippet f)) \<noteq> f_snippet f)
         else s = nat (f_start f) \<and> e = nat (f_end f)" by blast
    from se(4) have "relocate chunk f = (s, e)" unfolding relocate_cases .
    with r have "s0 = s" "e0 = e" by auto
    with m se show "map_finding base chunk f = Some (a, b)" by simp
  qed
qed

text \<open>
  A finding whose snippet occurs nowhere in the chunk, and so neither at the declared
  span nor elsewhere, is kept with its declared span.
\<close>

lemma finding_kept_without_snippet_match:
  "\<not> contains_str (str ''zzz'') (str ''0123456789abcdefXYZ'') \<and>
   map_finding 100 (str ''0123456789abcdefXYZ'')
     \<lparr>f_start = 0, f_end = 10, f_kind = str ''token'', f_reason = [], f_snippet = str ''zzz''\<rparr>
     = Some (100, 110)"
  by (simp add: map_finding_def relocate_def contains_str_def str_def slice_def
        strip_def lstrip_def rstrip_def is_space_def)

lemma map_finding_reconciled_example:
  "map_finding 100 (str ''0123456789abcdefXYZ'')
     \<lparr>f_start = 0, f_end = 10, f_kind = str ''token'', f_reason = [], f_snippet = str ''abcdefXYZ''\<rparr>
     = Some (110, 119) \<and>
   (\<exists>s e. 110 = 100 + s \<and> 119 = 100 + e \<and> e = s + length (str ''abcdefXYZ'') \<and>
      slice (str ''0123456789abcdefXYZ'') s e = str ''abcdefXYZ'')"
proof -
  let ?f = "\<lparr>f_start = 0, f_end = 10, f_kind = str ''token'', f_reason = [],
             f_snippet = str ''abcdefXYZ''\<rparr>"
  let ?c = "str ''0123456789abcdefXYZ''"
  have ev: "map_finding 100 ?c ?f = Some (110, 119)"
    by (simp add: map_finding_def relocate_def contains_str_def str_def slice_def
        strip_def lstrip_def rstrip_def is_space_def)
  have c1: "\<not> contains_str (f_snippet ?f) (slice ?c (nat (f_start ?f)) (nat (f_end ?f)))"
    by (simp add: contains_str_def str_def slice_def)
  have c2: "contains_str (f_snippet ?f) ?c"
    by (simp add: contains_str_def str_def slice_def)
  have c3: "f_snippet ?f \<noteq> []" by (simp add: str_def)
  from map_finding_reconciled[THEN iffD1, OF ev] c1 c2 c3
  have "\<exists>s e. 110 = 100 + s \<and> 119 = 100 + e \<and> e = s + length (str ''abcdefXYZ'') \<and>
      slice ?c s e = str ''abcdefXYZ''"
    by auto
  with ev show ?thesis by blast
qed

section \<open>The commit message\<close>

lemma join_lines_append1: "join [10] (l # ls @ [m]) = l @ [10] @ join [10] (ls @ [m])"
  by (cases ls) auto

lemma fallback_commit_message_flat:
  "fallback_commit_message staged sanitized llm_results =
     (if sec_paths sanitized llm_results = {} then str ''chore: commit staged changes''
      else str ''chore(security): sanitize secrets and commit changes'')
     @ [10, 10]
     @ (if count_status upper_startswith_A staged = 0 \<and> count_status upper_startswith_M staged = 0
           \<and> count_status upper_startswith_D staged = 0 then []
        else str ''- files: +'' @ dec (count_status upper_startswith_A staged)
           @ str '' ~'' @ dec (count_status upper_startswith_M staged)
           @ str '' -'' @ dec (count_status upper_startswith_D staged) @ [10])
     @ (if sec_paths sanitized llm_results = {} then []
        else str ''- sanitized secrets in '' @ dec (card (sec_paths sanitized llm_results))
           @ str '' file(s)'' @ [10])
     @ str ''- auto-generated message (fallback)''"
  by (simp add: fallback_commit_message_def Let_def)

text \<open>
  What \<open>_fallback_commit_message\<close> returns when only a rename is staged: the plain
  subject and the closing line; the line of counts is written only when one of the
  three counts is not zero.
\<close>

lemma fallback_commit_message_rename_only:
  "fallback_commit_message [(str ''R100'', str ''a.txt'' @ [9] @ str ''b.txt'')] [] []
     = str ''chore: commit staged changes'' @ [10, 10] @ str ''- auto-generated message (fallback)''"
  by (simp add: fallback_commit_message_def Let_def sec_paths_def
        count_status_def upper_startswith_A_def upper_startswith_M_def upper_startswith_D_def
        str_def)

lemma fallback_commit_message_example:
  "fallback_commit_message
       [(str ''M'', str ''a.txt''), (str ''A'', str ''b.txt'')]
       [\<lparr>rr_path = str ''a.txt'', rr_replaced = True\<rparr>] []
     = str ''chore(security): sanitize secrets and commit changes'' @ [10, 10]
       @ str ''- files: +1 ~1 -0'' @ [10]
       @ str ''- sanitized secrets in 1 file(s)'' @ [10]
       @ str ''- auto-generated message (fallback)''"
  unfolding fallback_commit_message_flat
  by (simp add: sec_paths_def count_status_def upper_startswith_A_def upper_startswith_M_def
        upper_startswith_D_def str_def dec.simps)

text \<open>
  Claim C9 says that \<open>generate_commit_message\<close> returns the fallback message whenever
  the call of the message service fails, so that it always produces some message; the
  docstring of the function says the same (\<open>Falls back to a deterministic message if the
  model fails\<close>). The function as it is checked in does not: its first statement, line
  608, calls the configuration string, outside the \<open>try\<close>, and the \<open>TypeError\<close>
  leaves the function. That happens in every call, whatever the passes reported and
  whatever the service would reply; neither the service call nor
  \<open>_fallback_commit_message\<close> is reached.
\<close>

theorem generate_commit_message_raises:
  "generate_commit_message key sanitized llm_results reply = Inl TypeError"
  by (simp add: generate_commit_message_def call_str_def)

theorem generate_commit_message_raises_witness:
  "generate_commit_message (str ''k'') [] [] Service_raises = Inl TypeError \<and>
   generate_commit_message (str ''k'') [\<lparr>rr_path = str ''a.txt'', rr_replaced = True\<rparr>] []
       (Service_text (Some (str ''fix: tidy''))) = Inl TypeError"
  using generate_commit_message_raises[of "str ''k''" "[]" "[]" Service_raises]
    generate_commit_message_raises[of "str ''k''" "[\<lparr>rr_path = str ''a.txt'', rr_replaced = True\<rparr>]"
      "[]" "Service_text (Some (str ''fix: tidy''))"]
  by simp

section \<open>The orchestrator\<close>





section \<open>The matcher\<close>

lemma run_le: "run c hi s i \<le> length s - i"
proof -
  have "length (takeWhile (in_cls c) (drop i s)) \<le> length (drop i s)"
    by (rule length_takeWhile_le)
  then show ?thesis by (cases hi) (auto simp: run_def)
qed

lemma ms_bounds:
  "i \<le> length s \<Longrightarrow> (j, g') \<in> set (ms w r s i g) \<Longrightarrow> i + minlen r \<le> j \<and> j \<le> length s"
proof (induction r arbitrary: i j g g')
  case Eps
  then show ?case by simp
next
  case (Cls c)
  then show ?case by (simp split: if_splits)
next
  case (Rep lo hi c)
  from Rep.prems(2) obtain n where n: "j = i + n" "lo \<le> n" "n \<le> run c hi s i"
    by (auto simp: image_iff)
  with run_le[of c hi s i] Rep.prems(1) show ?case by simp
next
  case (Seq a b)
  from Seq.prems(2) obtain k gk where k: "(k, gk) \<in> set (ms w a s i g)"
    "(j, g') \<in> set (ms w b s k gk)" by auto
  from Seq.IH(1)[OF Seq.prems(1) k(1)] have a: "i + minlen a \<le> k" "k \<le> length s" by simp_all
  from Seq.IH(2)[OF a(2) k(2)] a show ?case by simp
next
  case (Alt a b)
  from Alt.prems(2) have "(j, g') \<in> set (ms w a s i g) \<or> (j, g') \<in> set (ms w b s i g)" by simp
  then show ?case
  proof
    assume "(j, g') \<in> set (ms w a s i g)"
    from Alt.IH(1)[OF Alt.prems(1) this] show ?thesis by (simp add: min_def)
  next
    assume "(j, g') \<in> set (ms w b s i g)"
    from Alt.IH(2)[OF Alt.prems(1) this] show ?thesis by (simp add: min_def)
  qed
next
  case (Opt a)
  from Opt.prems(2) have "(j, g') \<in> set (ms w a s i g) \<or> j = i" by auto
  then show ?case
  proof
    assume "(j, g') \<in> set (ms w a s i g)"
    from Opt.IH[OF Opt.prems(1) this] show ?thesis by simp
  next
    assume "j = i" then show ?thesis using Opt.prems(1) by simp
  qed
next
  case (Grp n a)
  from Grp.prems(2) obtain g0 where "(j, g0) \<in> set (ms w a s i g)" by auto
  from Grp.IH[OF Grp.prems(1) this] show ?case by simp
next
  case (Backref n)
  show ?case
  proof (cases "map_of g n")
    case None
    with Backref.prems(2) show ?thesis by simp
  next
    case (Some x)
    with Backref.prems(2) have x: "take (length x) (drop i s) = x" "j = i + length x"
      by (simp_all split: if_splits)
    have "length x \<le> length (drop i s)" using x(1) by (rule take_eq_imp_le)
    with x(2) Backref.prems(1) show ?thesis by simp
  qed
next
  case Word_boundary
  then show ?case by (simp split: if_splits)
next
  case (Not_behind c)
  then show ?case by (simp split: if_splits)
next
  case (Not_ahead c)
  then show ?case by (simp split: if_splits)
qed


lemma matches_from_beyond: "length s < i \<Longrightarrow> matches_from w r s i = []"
  by (subst matches_from.simps) simp

lemma matches_from_none:
  "\<not> length s < i \<Longrightarrow> ms w r s i [] = [] \<Longrightarrow>
     matches_from w r s i = matches_from w r s (Suc i)"
  by (subst matches_from.simps) simp

lemma matches_from_some:
  "\<not> length s < i \<Longrightarrow> ms w r s i [] = (e, g) # rest \<Longrightarrow> i < e \<Longrightarrow>
     matches_from w r s i = (i, e, g) # matches_from w r s e"
  by (subst matches_from.simps) simp

lemma length_slice: "j \<le> length s \<Longrightarrow> length (slice s i j) = j - i"
  by (simp add: slice_def)

lemma splice_shrinks:
  "(\<And>j e g. j \<le> length s \<Longrightarrow> (e, g) \<in> set (ms w r s j []) \<Longrightarrow> length (repl g) < e - j) \<Longrightarrow>
   i0 \<le> i \<Longrightarrow>
     length (splice repl s i0 (matches_from w r s i)) \<le> length s - i0 \<and>
     (matches_from w r s i \<noteq> [] \<longrightarrow>
        length (splice repl s i0 (matches_from w r s i)) < length s - i0)"
proof (induction w r s i arbitrary: i0 rule: matches_from.induct)
  case (1 w r s i)
  note good = "1.prems"(1)
  show ?case
  proof (cases "length s < i")
    case True
    then show ?thesis by (simp add: matches_from_beyond)
  next
    case inside: False
    show ?thesis
    proof (cases "ms w r s i []")
      case Nil
      have "i0 \<le> Suc i" using "1.prems"(2) by simp
      from "1.IH"(1)[OF inside Nil good this] show ?thesis
        by (simp add: matches_from_none[OF inside Nil])
    next
      case (Cons m rest)
      obtain e g where m: "m = (e, g)" by (cases m)
      have mem: "(e, g) \<in> set (ms w r s i [])" using Cons m by simp
      have il: "i \<le> length s" using inside by simp
      from good[OF il mem] have lt: "length (repl g) < e - i" .
      then have ie: "i < e" by simp
      from ms_bounds[OF il mem] have el: "e \<le> length s" by simp
      have eq: "matches_from w r s i = (i, e, g) # matches_from w r s e"
        using matches_from_some[OF inside _ ie] Cons m by simp
      from "1.IH"(2)[OF inside Cons[unfolded m] refl ie good, of e]
      have ih: "length (splice repl s e (matches_from w r s e)) \<le> length s - e" by simp
      have "length (splice repl s i0 (matches_from w r s i)) =
              length (slice s i0 i) + length (repl g) + length (splice repl s e (matches_from w r s e))"
        by (simp add: eq)
      also have "length (slice s i0 i) = i - i0" using il by (rule length_slice)
      finally have "length (splice repl s i0 (matches_from w r s i)) < length s - i0"
        using ih lt el "1.prems"(2) by simp
      then show ?thesis by simp
    qed
  qed
qed

lemma re_sub_no_match: "matches_from w r s 0 = [] \<Longrightarrow> re_sub w r repl s = s"
  by (simp add: re_sub_def)

lemma re_sub_shrinks:
  assumes "\<And>j e g. j \<le> length s \<Longrightarrow> (e, g) \<in> set (ms w r s j []) \<Longrightarrow> length (repl g) < e - j"
    and "matches_from w r s 0 \<noteq> []"
  shows "length (re_sub w r repl s) < length s"
  using splice_shrinks[of s w r repl 0 0, OF assms(1)] assms(2) by (simp add: re_sub_def)

lemma ms_groupless:
  "groupless r \<Longrightarrow> (j, g') \<in> set (ms w r s i g) \<Longrightarrow> g' = g"
proof (induction r arbitrary: i j g g')
  case (Seq a b)
  from Seq.prems(2) obtain k gk where k: "(k, gk) \<in> set (ms w a s i g)"
    "(j, g') \<in> set (ms w b s k gk)" by auto
  from Seq.prems(1) have ga: "groupless a" and gb: "groupless b" by simp_all
  from Seq.IH(1)[OF ga k(1)] Seq.IH(2)[OF gb k(2)] show ?case by simp
next
  case (Alt a b)
  from Alt.prems(2) have "(j, g') \<in> set (ms w a s i g) \<or> (j, g') \<in> set (ms w b s i g)" by simp
  with Alt.IH Alt.prems(1) show ?case by auto
next
  case (Opt a)
  from Opt.prems(2) have "(j, g') \<in> set (ms w a s i g) \<or> g' = g" by auto
  with Opt.IH Opt.prems(1) show ?case by auto
next
  case (Grp n a)
  then show ?case by simp
next
  case (Backref n)
  then show ?case by (auto split: option.splits if_splits)
next
  case (Rep lo hi c)
  then show ?case by (auto simp: image_iff)
qed (simp_all split: if_splits)

lemma ms_Seq_iff:
  "(e, g') \<in> set (ms w (Seq a b) s i g) \<longleftrightarrow>
     (\<exists>k gk. (k, gk) \<in> set (ms w a s i g) \<and> (e, g') \<in> set (ms w b s k gk))"
  by auto

lemma ms_Grp_iff:
  "(e, g') \<in> set (ms w (Grp n a) s i g) \<longleftrightarrow>
     (\<exists>ga. (e, ga) \<in> set (ms w a s i g) \<and> g' = (n, slice s i e) # ga)"
  by auto

lemma slice_append: "i \<le> j \<Longrightarrow> j \<le> k \<Longrightarrow> slice s i j @ slice s j k = slice s i k"
proof -
  assume a: "i \<le> j" "j \<le> k"
  have k: "k - i = (j - i) + (k - j)" using a by simp
  have d: "drop (j - i) (drop i s) = drop j s" using a by simp
  show ?thesis unfolding slice_def k take_add d ..
qed

lemma take_takeWhile_all:
  "n \<le> length (takeWhile P xs) \<Longrightarrow> x \<in> set (take n xs) \<Longrightarrow> P x"
proof -
  assume n: "n \<le> length (takeWhile P xs)" and x: "x \<in> set (take n xs)"
  have "take n xs = take n (takeWhile P xs @ dropWhile P xs)" by simp
  also have "\<dots> = take n (takeWhile P xs)" using n by (simp del: takeWhile_dropWhile_id)
  finally have "x \<in> set (takeWhile P xs)" using x by (auto dest: in_set_takeD)
  then show "P x" by (rule set_takeWhileD[THEN conjunct2])
qed

lemma ms_Rep_D:
  assumes "(j, g') \<in> set (ms w (Rep lo hi c) s i g)" and "i \<le> length s"
  shows "g' = g \<and> i + lo \<le> j \<and> j \<le> length s \<and> length (slice s i j) = j - i \<and>
         (\<forall>x \<in> set (slice s i j). in_cls c x) \<and> (\<forall>h. hi = Some h \<longrightarrow> j - i \<le> h)"
proof -
  from assms(1) obtain n where n: "j = i + n" "lo \<le> n" "n \<le> run c hi s i" "g' = g"
    by (auto simp: image_iff)
  have r1: "run c hi s i \<le> length (takeWhile (in_cls c) (drop i s))"
    by (cases hi) (simp_all add: run_def)
  have r2: "\<forall>h. hi = Some h \<longrightarrow> run c hi s i \<le> h" by (simp add: run_def)
  have le: "j \<le> length s" using n(1,3) run_le[of c hi s i] assms(2) by simp
  have "\<forall>x \<in> set (take n (drop i s)). in_cls c x"
    using take_takeWhile_all[of n "in_cls c" "drop i s"] n(3) r1 by auto
  then have "\<forall>x \<in> set (slice s i j). in_cls c x" using n(1) by (simp add: slice_def)
  moreover have "length (slice s i j) = j - i" using le by (rule length_slice)
  ultimately show ?thesis using n r2 le by auto
qed

lemma ms_Cls_D:
  assumes "(j, g') \<in> set (ms w (Cls c) s i g)"
  shows "g' = g \<and> j = Suc i \<and> i < length s \<and> in_cls c (s ! i) \<and> slice s i j = [s ! i]"
proof -
  from assms have a: "i < length s" "in_cls c (s ! i)" "j = Suc i" "g' = g"
    by (simp_all split: if_splits)
  have "take 1 (drop i s) = [s ! i]" using a(1)
    by (metis One_nat_def Cons_nth_drop_Suc take0 take_Suc_Cons)
  then show ?thesis using a by (simp add: slice_def)
qed

lemma ms_Backref_D:
  assumes "(j, g') \<in> set (ms w (Backref n) s i g)"
  shows "\<exists>x. map_of g n = Some x \<and> slice s i j = x \<and> j = i + length x \<and> g' = g"
proof (cases "map_of g n")
  case None
  with assms show ?thesis by simp
next
  case (Some x)
  with assms have "take (length x) (drop i s) = x" "j = i + length x" "g' = g"
    by (simp_all split: if_splits)
  with Some show ?thesis by (simp add: slice_def)
qed

lemma in_space_cls: "in_cls space_cls c \<longleftrightarrow> is_space c"
  unfolding space_cls_def is_space_def in_cls.simps by arith

section \<open>The pattern pass\<close>

lemma kv_groups:
  assumes m: "(e, g) \<in> set (ms w (Seq (Grp 1 P) (Seq (Grp 2 Q) (Seq (Grp 3 V) (Grp 4 (Backref 2))))) s j g0)"
    and gl: "groupless P" "groupless Q" "groupless V"
    and j: "j \<le> length s"
  shows "\<exists>k1 k2 k3.
      (k1, g0) \<in> set (ms w P s j g0) \<and>
      (k2, (1, slice s j k1) # g0) \<in> set (ms w Q s k1 ((1, slice s j k1) # g0)) \<and>
      (k3, (2, slice s k1 k2) # (1, slice s j k1) # g0)
          \<in> set (ms w V s k2 ((2, slice s k1 k2) # (1, slice s j k1) # g0)) \<and>
      j \<le> k1 \<and> k1 \<le> k2 \<and> k2 \<le> k3 \<and> k3 \<le> e \<and> e \<le> length s \<and>
      slice s k3 e = slice s k1 k2 \<and>
      g = (4, slice s k3 e) # (3, slice s k2 k3) # (2, slice s k1 k2) # (1, slice s j k1) # g0"
proof -
  from m[unfolded ms_Seq_iff ms_Grp_iff]
  obtain k1 k2 k3 ga gb gc gd where
    a: "(k1, ga) \<in> set (ms w P s j g0)" and
    b: "(k2, gb) \<in> set (ms w Q s k1 ((1, slice s j k1) # ga))" and
    c: "(k3, gc) \<in> set (ms w V s k2 ((2, slice s k1 k2) # gb))" and
    d: "(e, gd) \<in> set (ms w (Backref 2) s k3 ((3, slice s k2 k3) # gc))" and
    g: "g = (4, slice s k3 e) # gd"
    by blast
  have ga: "ga = g0" using ms_groupless[OF gl(1) a] .
  have gb: "gb = (1, slice s j k1) # g0" using ms_groupless[OF gl(2) b] ga by simp
  have gc: "gc = (2, slice s k1 k2) # (1, slice s j k1) # g0"
    using ms_groupless[OF gl(3) c] gb by simp
  from ms_Backref_D[OF d] gc
  have bd: "slice s k3 e = slice s k1 k2" "gd = (3, slice s k2 k3) # gc" by auto
  from ms_bounds[OF j a] have 1: "j \<le> k1" "k1 \<le> length s" by simp_all
  from ms_bounds[OF 1(2) b] have 2: "k1 \<le> k2" "k2 \<le> length s" by simp_all
  from ms_bounds[OF 2(2) c] have 3: "k2 \<le> k3" "k3 \<le> length s" by simp_all
  from ms_bounds[OF 3(2) d] have 4: "k3 \<le> e" "e \<le> length s" by simp_all
  show ?thesis
    using a b c ga gb gc bd g 1 2 3 4 by blast
qed

lemma kv_general_unfold:
  "kv_general =
     Seq (Grp 1 (Seq (Rep 2 None key_cls) (Seq (Rep 0 None space_cls)
            (Seq (Cls [one CHR '':'', one CHR ''='']) (Rep 0 None space_cls)))))
       (Seq (Grp 2 (Rep 0 (Some 1) [(34, 34), (39, 39)]))
         (Seq (Grp 3 (Rep 16 None value_cls)) (Grp 4 (Backref 2))))"
  by (simp add: kv_general_def)

lemma quote_slice:
  assumes "length q \<le> 1" and "\<forall>x \<in> set q. in_cls [(34, 34), (39, 39)] x"
  shows "q = [] \<or> q = [34] \<or> q = [39]"
proof (cases q)
  case Nil then show ?thesis by simp
next
  case (Cons x xs)
  with assms(1) have "xs = []" by simp
  with Cons assms(2) show ?thesis by auto
qed


lemma kv_general_match_shape:
  assumes m: "(e, g) \<in> set (ms w kv_general s j [])" and j: "j \<le> length s"
  shows "\<exists>key sp1 op sp2 q v.
      slice s j e = key @ sp1 @ [op] @ sp2 @ q @ v @ q \<and>
      kv_repl g = key @ sp1 @ [op] @ sp2 @ q @ str ''api_key'' @ q \<and>
      2 \<le> length key \<and> (\<forall>c \<in> set key. in_cls key_cls c) \<and>
      (\<forall>c \<in> set sp1. is_space c) \<and> (op = 58 \<or> op = 61) \<and> (\<forall>c \<in> set sp2. is_space c) \<and>
      (q = [] \<or> q = [34] \<or> q = [39]) \<and>
      16 \<le> length v \<and> (\<forall>c \<in> set v. in_cls value_cls c)"
proof -
  let ?P = "Seq (Rep 2 None key_cls) (Seq (Rep 0 None space_cls)
            (Seq (Cls [one CHR '':'', one CHR ''='']) (Rep 0 None space_cls)))"
  have gP: "groupless ?P" by simp
  have gQ: "groupless (Rep 0 (Some 1) [(34, 34), (39, 39)])" by simp
  have gV: "groupless (Rep 16 None value_cls)" by simp
  from kv_groups[OF m[unfolded kv_general_unfold] gP gQ gV j]
  obtain k1 k2 k3 where
    p: "(k1, []) \<in> set (ms w ?P s j [])" and
    q: "(k2, [(1, slice s j k1)]) \<in> set (ms w (Rep 0 (Some 1) [(34, 34), (39, 39)]) s k1 [(1, slice s j k1)])" and
    v: "(k3, [(2, slice s k1 k2), (1, slice s j k1)])
          \<in> set (ms w (Rep 16 None value_cls) s k2 [(2, slice s k1 k2), (1, slice s j k1)])" and
    o: "j \<le> k1" "k1 \<le> k2" "k2 \<le> k3" "k3 \<le> e" "e \<le> length s" and
    bq: "slice s k3 e = slice s k1 k2" and
    g: "g = [(4, slice s k3 e), (3, slice s k2 k3), (2, slice s k1 k2), (1, slice s j k1)]"
    by blast
  from p[unfolded ms_Seq_iff]
  obtain a1 a2 a3 h1 h2 h3 where
    r1: "(a1, h1) \<in> set (ms w (Rep 2 None key_cls) s j [])" and
    r2: "(a2, h2) \<in> set (ms w (Rep 0 None space_cls) s a1 h1)" and
    r3: "(a3, h3) \<in> set (ms w (Cls [one CHR '':'', one CHR ''='']) s a2 h2)" and
    r4: "(k1, []) \<in> set (ms w (Rep 0 None space_cls) s a3 h3)"
    by blast
  have d1: "j + 2 \<le> a1" "a1 \<le> length s" "length (slice s j a1) = a1 - j"
    "\<forall>x \<in> set (slice s j a1). in_cls key_cls x"
    using ms_Rep_D[OF r1 j] by blast+
  have d2: "a1 \<le> a2" "a2 \<le> length s" "\<forall>x \<in> set (slice s a1 a2). is_space x"
    using ms_Rep_D[OF r2 d1(2)] unfolding in_space_cls by auto
  have d3: "a3 = Suc a2" "a2 < length s" "in_cls [one CHR '':'', one CHR ''=''] (s ! a2)"
    "slice s a2 a3 = [s ! a2]"
    using ms_Cls_D[OF r3] by blast+
  have a3l: "a3 \<le> length s" using d3(1,2) by simp
  have d4: "a3 \<le> k1" "\<forall>x \<in> set (slice s a3 k1). is_space x"
    using ms_Rep_D[OF r4 a3l] unfolding in_space_cls by auto
  have k1l: "k1 \<le> length s" using o by simp
  have dq: "length (slice s k1 k2) = k2 - k1" "k2 - k1 \<le> 1"
    "\<forall>x \<in> set (slice s k1 k2). in_cls [(34, 34), (39, 39)] x"
    using ms_Rep_D[OF q k1l] by blast+
  have k2l: "k2 \<le> length s" using o by simp
  have dv: "k2 + 16 \<le> k3" "length (slice s k2 k3) = k3 - k2"
    "\<forall>x \<in> set (slice s k2 k3). in_cls value_cls x"
    using ms_Rep_D[OF v k2l] by blast+
  have op: "s ! a2 = 58 \<or> s ! a2 = 61" using d3(3) by (auto simp: one_def)
  have g1: "slice s j k1 = slice s j a1 @ slice s a1 a2 @ [s ! a2] @ slice s a3 k1"
  proof -
    have "slice s j a1 @ slice s a1 a2 @ slice s a2 a3 @ slice s a3 k1 = slice s j k1"
      using d1(1) d2(1) d3(1) d4(1) by (simp add: slice_append)
    then show ?thesis using d3(4) by simp
  qed
  have whole: "slice s j e = slice s j k1 @ slice s k1 k2 @ slice s k2 k3 @ slice s k3 e"
    using o by (simp add: slice_append)
  have repl: "kv_repl g = slice s j k1 @ slice s k1 k2 @ str ''api_key'' @ slice s k3 e"
    using g by (simp add: kv_repl_def group_def)
  have qs: "slice s k1 k2 = [] \<or> slice s k1 k2 = [34] \<or> slice s k1 k2 = [39]"
    using quote_slice[of "slice s k1 k2"] dq by simp
  have lk: "2 \<le> length (slice s j a1)" using d1(1,3) by simp
  have lv: "16 \<le> length (slice s k2 k3)" using dv(1,2) by simp
  show ?thesis
    apply (rule exI[of _ "slice s j a1"])
    apply (rule exI[of _ "slice s a1 a2"])
    apply (rule exI[of _ "s ! a2"])
    apply (rule exI[of _ "slice s a3 k1"])
    apply (rule exI[of _ "slice s k1 k2"])
    apply (rule exI[of _ "slice s k2 k3"])
    using whole repl g1 bq d1(4) d2(3) d4(2) op qs dv(3) lk lv by simp
qed

lemma kv_shrink:
  assumes m: "(e, g) \<in> set (ms w (Seq (Grp 1 P) (Seq (Grp 2 Q) (Seq (Grp 3 V) (Grp 4 (Backref 2))))) s j [])"
    and gl: "groupless P" "groupless Q" "groupless V"
    and j: "j \<le> length s"
    and v: "7 < minlen V"
  shows "length (kv_repl g) < e - j"
proof -
  from kv_groups[OF m gl j]
  obtain k1 k2 k3 where
    c: "(k3, [(2, slice s k1 k2), (1, slice s j k1)])
          \<in> set (ms w V s k2 [(2, slice s k1 k2), (1, slice s j k1)])" and
    o: "j \<le> k1" "k1 \<le> k2" "k2 \<le> k3" "k3 \<le> e" "e \<le> length s" and
    g: "g = [(4, slice s k3 e), (3, slice s k2 k3), (2, slice s k1 k2), (1, slice s j k1)]"
    by blast
  have k2l: "k2 \<le> length s" using o by simp
  from ms_bounds[OF k2l c] v have big: "k2 + 7 < k3" by simp
  have "kv_repl g = slice s j k1 @ slice s k1 k2 @ str ''api_key'' @ slice s k3 e"
    using g by (simp add: kv_repl_def group_def)
  then have "length (kv_repl g) = (k1 - j) + (k2 - k1) + 7 + (e - k3)"
    using o by (simp add: length_slice str_def)
  with o big show ?thesis by simp
qed

lemma kv_general_good:
  assumes "j \<le> length s" and "(e, g) \<in> set (ms w kv_general s j [])"
  shows "length (kv_repl g) < e - j"
proof -
  let ?P = "Seq (Rep 2 None key_cls) (Seq (Rep 0 None space_cls)
            (Seq (Cls [one CHR '':'', one CHR ''='']) (Rep 0 None space_cls)))"
  have gP: "groupless ?P" by simp
  have gQ: "groupless (Rep 0 (Some 1) [(34, 34), (39, 39)])" by simp
  have gV: "groupless (Rep 16 None value_cls)" by simp
  have v: "7 < minlen (Rep 16 None value_cls)" by simp
  from kv_shrink[OF assms(2)[unfolded kv_general_unfold] gP gQ gV assms(1) v] show ?thesis .
qed

lemma kv_sk_unfold:
  "kv_sk =
     Seq (Grp 1 (seq [Opt (seq [ilit ''export'', Rep 1 None space_cls]),
                      Rep 2 None (key_cls @ ignorecase_extra), Rep 0 None space_cls,
                      Cls [one CHR '':'', one CHR ''=''], Rep 0 None space_cls]))
       (Seq (Grp 2 (Rep 0 (Some 1) [(34, 34), (39, 39), (96, 96)]))
         (Seq (Grp 3 (seq [ilit ''sk-'', Rep 8 (Some 48) (alnum @ ignorecase_extra)]))
            (Grp 4 (Backref 2))))"
  by (simp add: kv_sk_def)

lemma kv_sk_good:
  assumes "j \<le> length s" and "(e, g) \<in> set (ms w kv_sk s j [])"
  shows "length (kv_repl g) < e - j"
proof -
  let ?P = "seq [Opt (seq [ilit ''export'', Rep 1 None space_cls]),
                      Rep 2 None (key_cls @ ignorecase_extra), Rep 0 None space_cls,
                      Cls [one CHR '':'', one CHR ''=''], Rep 0 None space_cls]"
  let ?V = "seq [ilit ''sk-'', Rep 8 (Some 48) (alnum @ ignorecase_extra)]"
  have gP: "groupless ?P" by (simp add: ilit_def)
  have gQ: "groupless (Rep 0 (Some 1) [(34, 34), (39, 39), (96, 96)])" by simp
  have gV: "groupless ?V" by (simp add: ilit_def)
  have v: "7 < minlen ?V" by (simp add: ilit_def)
  from kv_shrink[OF assms(2)[unfolded kv_sk_unfold] gP gQ gV assms(1) v] show ?thesis .
qed

lemma minlen_token_union: "minlen token_union = 11"
  by (simp add: token_union_def SECRET_TOKEN_PATTERNS_def lit_def ilit_def)

lemma length_api_key: "length (str ''api_key'') = 7"
  by (simp add: str_def)

lemma token_good:
  assumes "j \<le> length s" and "(e, g) \<in> set (ms w token_union s j [])"
  shows "length (str ''api_key'') < e - j"
proof -
  from ms_bounds[OF assms] have "j + 11 \<le> e" by (simp add: minlen_token_union)
  then show ?thesis unfolding length_api_key by arith
qed

lemma pass_cases:
  assumes "\<And>j e g. j \<le> length s \<Longrightarrow> (e, g) \<in> set (ms w r s j []) \<Longrightarrow> length (repl g) < e - j"
  shows "(matches_from w r s 0 = [] \<and> re_sub w r repl s = s) \<or>
         (matches_from w r s 0 \<noteq> [] \<and> length (re_sub w r repl s) < length s)"
proof (cases "matches_from w r s 0 = []")
  case True
  then show ?thesis by (simp add: re_sub_no_match)
next
  case False
  with re_sub_shrinks[of s w r repl, OF assms] show ?thesis by simp
qed

lemma sanitize_text_unfold:
  "sanitize_text w s =
     (re_sub w token_union (\<lambda>_. str ''api_key'')
        (re_sub w kv_sk kv_repl (re_sub w kv_general kv_repl s)),
      ((matches_from w kv_general s 0 \<noteq> [] \<or> re_sub w kv_general kv_repl s \<noteq> s) \<or>
       (matches_from w kv_sk (re_sub w kv_general kv_repl s) 0 \<noteq> [] \<or>
        re_sub w kv_sk kv_repl (re_sub w kv_general kv_repl s) \<noteq> re_sub w kv_general kv_repl s)) \<or>
      re_sub w token_union (\<lambda>_. str ''api_key'')
        (re_sub w kv_sk kv_repl (re_sub w kv_general kv_repl s))
        \<noteq> re_sub w kv_sk kv_repl (re_sub w kv_general kv_repl s))"
  by (simp add: sanitize_text_def KV_VALUE_PATTERNS_def kv_step_def)

lemma sanitize_text_cases:
  "(matches_from w kv_general s 0 = [] \<and> matches_from w kv_sk s 0 = [] \<and>
    matches_from w token_union s 0 = [] \<and> sanitize_text w s = (s, False)) \<or>
   ((matches_from w kv_general s 0 \<noteq> [] \<or> matches_from w kv_sk s 0 \<noteq> [] \<or>
     matches_from w token_union s 0 \<noteq> []) \<and>
    length (fst (sanitize_text w s)) < length s \<and> snd (sanitize_text w s))"
proof -
  let ?s1 = "re_sub w kv_general kv_repl s"
  let ?s2 = "re_sub w kv_sk kv_repl ?s1"
  let ?s3 = "re_sub w token_union (\<lambda>_. str ''api_key'') ?s2"
  have p1: "(matches_from w kv_general s 0 = [] \<and> ?s1 = s) \<or>
            (matches_from w kv_general s 0 \<noteq> [] \<and> length ?s1 < length s)"
    by (rule pass_cases) (rule kv_general_good)
  have p2: "(matches_from w kv_sk ?s1 0 = [] \<and> ?s2 = ?s1) \<or>
            (matches_from w kv_sk ?s1 0 \<noteq> [] \<and> length ?s2 < length ?s1)"
    by (rule pass_cases) (rule kv_sk_good)
  have p3: "(matches_from w token_union ?s2 0 = [] \<and> ?s3 = ?s2) \<or>
            (matches_from w token_union ?s2 0 \<noteq> [] \<and> length ?s3 < length ?s2)"
    by (rule pass_cases) (rule token_good)
  have f: "fst (sanitize_text w s) = ?s3" by (simp add: sanitize_text_unfold)
  have c: "snd (sanitize_text w s) \<longleftrightarrow>
      ((matches_from w kv_general s 0 \<noteq> [] \<or> ?s1 \<noteq> s) \<or>
       (matches_from w kv_sk ?s1 0 \<noteq> [] \<or> ?s2 \<noteq> ?s1)) \<or> ?s3 \<noteq> ?s2"
    by (simp add: sanitize_text_unfold)
  show ?thesis
  proof (cases "matches_from w kv_general s 0 = []")
    case m1: True
    with p1 have s1: "?s1 = s" by auto
    show ?thesis
    proof (cases "matches_from w kv_sk s 0 = []")
      case m2: True
      with p2 s1 have s2: "?s2 = s" by auto
      show ?thesis
      proof (cases "matches_from w token_union s 0 = []")
        case m3: True
        with p3 s2 have s3: "?s3 = s" by auto
        have "sanitize_text w s = (s, False)"
          using f c m1 m2 m3 s1 s2 s3 by (simp add: prod_eq_iff)
        with m1 m2 m3 show ?thesis by simp
      next
        case m3: False
        with p3 s2 have "length ?s3 < length s" by auto
        moreover from this s2 have "?s3 \<noteq> ?s2" by auto
        ultimately show ?thesis using m3 f c by simp
      qed
    next
      case m2: False
      with p2 s1 have l2: "length ?s2 < length s" by auto
      from p3 have "length ?s3 \<le> length ?s2" by auto
      with l2 have "length ?s3 < length s" by simp
      moreover have "snd (sanitize_text w s)" using c m2 s1 by simp
      ultimately show ?thesis using m2 f by simp
    qed
  next
    case m1: False
    with p1 have l1: "length ?s1 < length s" by auto
    from p2 have "length ?s2 \<le> length ?s1" by auto
    moreover from p3 have "length ?s3 \<le> length ?s2" by auto
    ultimately have "length ?s3 < length s" using l1 by simp
    moreover have "snd (sanitize_text w s)" using c m1 by simp
    ultimately show ?thesis using m1 f by simp
  qed
qed

text \<open>
  The flag that \<open>_sanitize_text\<close> returns is true exactly when the text it
  returns differs from its input: every replacement of either family puts the 7
  characters of the token for a value or a token of at least 11 characters, so a pass
  with a match makes the text shorter, and a pass without one leaves it as it is.
\<close>

lemma sanitize_text_flag:
  "snd (sanitize_text w s) \<longleftrightarrow> fst (sanitize_text w s) \<noteq> s"
  using sanitize_text_cases[of w s] by auto

section \<open>Evaluating the matcher\<close>

lemma ms_Seq_eval: "ms w (Seq a b) s i g = then_ms w b s (ms w a s i g)"
  by (simp add: then_ms_def)

lemma then_ms_Nil: "then_ms w b s [] = []"
  by (simp add: then_ms_def)

lemma then_ms_Cons: "then_ms w b s ((j, g') # xs) = ms w b s j g' @ then_ms w b s xs"
  by (simp add: then_ms_def)

lemma ms_Grp_eval: "ms w (Grp n a) s i g = grp_ms n s i (ms w a s i g)"
  by (simp add: grp_ms_def)

lemma grp_ms_Nil: "grp_ms n s i [] = []"
  by (simp add: grp_ms_def)

lemma grp_ms_Cons: "grp_ms n s i ((j, g') # xs) = (j, (n, slice s i j) # g') # grp_ms n s i xs"
  by (simp add: grp_ms_def)

lemmas ms_eval = ms_Seq_eval ms_Grp_eval then_ms_Nil then_ms_Cons grp_ms_Nil grp_ms_Cons

lemmas rx_defs = kv_general_def kv_sk_def token_union_def SECRET_TOKEN_PATTERNS_def
  lit_def ilit_def fold_case_def one_def rng_def
  space_cls_def upper_digit_def alnum_def alnum_us_def alnum_dash_def alnum_us_dash_def
  key_cls_def value_cls_def bearer_cls_def ignorecase_extra_def
  run_def word_at_def is_word_def slice_def str_def

lemmas sub_eval = matches_from.simps re_sub_def kv_repl_def group_def
  sanitize_text_def KV_VALUE_PATTERNS_def kv_step_def

section \<open>The claims about the pattern pass\<close>

lemma matches_from_empty_match:
  "\<not> length s < i \<Longrightarrow> ms w r s i [] = (e, g) # rest \<Longrightarrow> \<not> i < e \<Longrightarrow>
     matches_from w r s i = (i, e, g) # matches_from w r s (Suc i)"
  by (subst matches_from.simps) simp

lemma matches_from_member:
  "(j, e, g) \<in> set (matches_from w r s i) \<Longrightarrow>
     i \<le> j \<and> j \<le> length s \<and> (e, g) \<in> set (ms w r s j [])"
proof (induction w r s i rule: matches_from.induct)
  case (1 w r s i)
  show ?case
  proof (cases "length s < i")
    case True
    with "1.prems" show ?thesis by (simp add: matches_from_beyond)
  next
    case inside: False
    show ?thesis
    proof (cases "ms w r s i []")
      case Nil
      with "1.prems" inside have "(j, e, g) \<in> set (matches_from w r s (Suc i))"
        by (simp add: matches_from_none)
      from "1.IH"(1)[OF inside Nil this] show ?thesis by simp
    next
      case (Cons m rest)
      obtain e0 g0 where m: "m = (e0, g0)" by (cases m)
      have hd: "(e0, g0) \<in> set (ms w r s i [])" using Cons m by simp
      show ?thesis
      proof (cases "i < e0")
        case True
        have "matches_from w r s i = (i, e0, g0) # matches_from w r s e0"
          using matches_from_some[OF inside _ True] Cons m by simp
        with "1.prems" have "(j, e, g) = (i, e0, g0) \<or> (j, e, g) \<in> set (matches_from w r s e0)"
          by simp
        then show ?thesis
        proof
          assume "(j, e, g) = (i, e0, g0)"
          with hd inside show ?thesis by simp
        next
          assume "(j, e, g) \<in> set (matches_from w r s e0)"
          from "1.IH"(2)[OF inside Cons[unfolded m] refl True this] True show ?thesis by simp
        qed
      next
        case False
        have "matches_from w r s i = (i, e0, g0) # matches_from w r s (Suc i)"
          using matches_from_empty_match[OF inside _ False] Cons m by simp
        with "1.prems" have "(j, e, g) = (i, e0, g0) \<or> (j, e, g) \<in> set (matches_from w r s (Suc i))"
          by simp
        then show ?thesis
        proof
          assume "(j, e, g) = (i, e0, g0)"
          with hd inside show ?thesis by simp
        next
          assume "(j, e, g) \<in> set (matches_from w r s (Suc i))"
          from "1.IH"(3)[OF inside Cons[unfolded m] refl False this] show ?thesis by simp
        qed
      qed
    qed
  qed
qed

lemma kv_value_length:
  assumes m: "(e, g) \<in> set (ms w (Seq (Grp 1 P) (Seq (Grp 2 Q) (Seq (Grp 3 V) (Grp 4 (Backref 2))))) s j [])"
    and gl: "groupless P" "groupless Q" "groupless V"
    and j: "j \<le> length s"
  shows "minlen V \<le> length (group g 3)"
proof -
  from kv_groups[OF m gl j]
  obtain k1 k2 k3 where
    c: "(k3, [(2, slice s k1 k2), (1, slice s j k1)])
          \<in> set (ms w V s k2 [(2, slice s k1 k2), (1, slice s j k1)])" and
    o: "j \<le> k1" "k1 \<le> k2" "k2 \<le> k3" "k3 \<le> e" "e \<le> length s" and
    g: "g = [(4, slice s k3 e), (3, slice s k2 k3), (2, slice s k1 k2), (1, slice s j k1)]"
    by blast
  have k2l: "k2 \<le> length s" using o by simp
  from ms_bounds[OF k2l c] have "k2 + minlen V \<le> k3" by simp
  moreover have "length (group g 3) = k3 - k2" using g o by (simp add: group_def length_slice)
  ultimately show ?thesis by simp
qed

lemma kv_general_value_length:
  assumes "j \<le> length s" and "(e, g) \<in> set (ms w kv_general s j [])"
  shows "16 \<le> length (group g 3)"
proof -
  let ?P = "Seq (Rep 2 None key_cls) (Seq (Rep 0 None space_cls)
            (Seq (Cls [one CHR '':'', one CHR ''='']) (Rep 0 None space_cls)))"
  have gP: "groupless ?P" by simp
  have gQ: "groupless (Rep 0 (Some 1) [(34, 34), (39, 39)])" by simp
  have gV: "groupless (Rep 16 None value_cls)" by simp
  from kv_value_length[OF assms(2)[unfolded kv_general_unfold] gP gQ gV assms(1)]
  show ?thesis by simp
qed

lemma kv_sk_value_length:
  assumes "j \<le> length s" and "(e, g) \<in> set (ms w kv_sk s j [])"
  shows "11 \<le> length (group g 3)"
proof -
  let ?P = "seq [Opt (seq [ilit ''export'', Rep 1 None space_cls]),
                      Rep 2 None (key_cls @ ignorecase_extra), Rep 0 None space_cls,
                      Cls [one CHR '':'', one CHR ''=''], Rep 0 None space_cls]"
  let ?V = "seq [ilit ''sk-'', Rep 8 (Some 48) (alnum @ ignorecase_extra)]"
  have gP: "groupless ?P" by (simp add: ilit_def)
  have gQ: "groupless (Rep 0 (Some 1) [(34, 34), (39, 39), (96, 96)])" by simp
  have gV: "groupless ?V" by (simp add: ilit_def)
  have v: "minlen ?V = 11" by (simp add: ilit_def)
  from kv_value_length[OF assms(2)[unfolded kv_sk_unfold] gP gQ gV assms(1)] v
  show ?thesis by simp
qed

section \<open>The pattern pass on given texts\<close>

lemma scenario_kv_match:
  "matches_from w kv_general (str ''OPENAI_KEY=sk-aaaaaaaaaaaaaaaaaaaaaaaaaaaaaaaa'') 0 =
     [(0, 46, [(4, []), (3, str ''sk-aaaaaaaaaaaaaaaaaaaaaaaaaaaaaaaa''), (2, []),
               (1, str ''OPENAI_KEY='')])]"
  by (simp add: ms_eval rx_defs sub_eval del: ms.simps(4) ms.simps(7))

lemma scenario_sanitized:
  "sanitize_text w (str ''OPENAI_KEY=sk-aaaaaaaaaaaaaaaaaaaaaaaaaaaaaaaa'') =
     (str ''OPENAI_KEY=api_key'', True)"
  by (simp add: ms_eval rx_defs sub_eval del: ms.simps(4) ms.simps(7))

lemma scenario_output_no_match:
  "matches_from w kv_general (str ''OPENAI_KEY=api_key'') 0 = []"
  "matches_from w kv_sk (str ''OPENAI_KEY=api_key'') 0 = []"
  "matches_from w token_union (str ''OPENAI_KEY=api_key'') 0 = []"
  by (simp_all add: ms_eval rx_defs sub_eval del: ms.simps(4) ms.simps(7))

text \<open>
  Claim C1, as the code has it. Every replacement that the key/value pattern makes
  (each match that \<open>rx.sub\<close> hands to \<open>repl\<close>) replaces only the value: the matched
  text is a key of at least two key characters, white space, \<open>:\<close> or \<open>=\<close>, white space,
  an optional quote, a value of at least 16 value characters and the same quote again,
  and the replacement is the same text with the token in place of the value. The
  blanket pass runs afterwards on the whole text, kept keys included. On the line
  \<open>OPENAI_KEY=sk-aaaaaaaaaaaaaaaaaaaaaaaaaaaaaaaa\<close> the function returns
  \<open>OPENAI_KEY=api_key\<close> and \<open>True\<close>.
\<close>

theorem kv_replacement_keeps_key_and_quotes:
  "(\<forall>j e g. (j, e, g) \<in> set (matches_from w kv_general s 0) \<longrightarrow>
      (\<exists>key sp1 op sp2 q v.
         slice s j e = key @ sp1 @ [op] @ sp2 @ q @ v @ q \<and>
         kv_repl g = key @ sp1 @ [op] @ sp2 @ q @ str ''api_key'' @ q \<and>
         2 \<le> length key \<and> (\<forall>c \<in> set key. in_cls key_cls c) \<and>
         (\<forall>c \<in> set sp1. is_space c) \<and> (op = 58 \<or> op = 61) \<and> (\<forall>c \<in> set sp2. is_space c) \<and>
         (q = [] \<or> q = [34] \<or> q = [39]) \<and>
         16 \<le> length v \<and> (\<forall>c \<in> set v. in_cls value_cls c)))
   \<and> sanitize_text w (str ''OPENAI_KEY=sk-aaaaaaaaaaaaaaaaaaaaaaaaaaaaaaaa'') =
         (str ''OPENAI_KEY=api_key'', True)"
proof (intro conjI allI impI)
  fix j e g
  assume "(j, e, g) \<in> set (matches_from w kv_general s 0)"
  from matches_from_member[OF this]
  have "j \<le> length s" "(e, g) \<in> set (ms w kv_general s j [])" by simp_all
  from kv_general_match_shape[OF this(2,1)]
  show "\<exists>key sp1 op sp2 q v.
         slice s j e = key @ sp1 @ [op] @ sp2 @ q @ v @ q \<and>
         kv_repl g = key @ sp1 @ [op] @ sp2 @ q @ str ''api_key'' @ q \<and>
         2 \<le> length key \<and> (\<forall>c \<in> set key. in_cls key_cls c) \<and>
         (\<forall>c \<in> set sp1. is_space c) \<and> (op = 58 \<or> op = 61) \<and> (\<forall>c \<in> set sp2. is_space c) \<and>
         (q = [] \<or> q = [34] \<or> q = [39]) \<and>
         16 \<le> length v \<and> (\<forall>c \<in> set v. in_cls value_cls c)" .
next
  show "sanitize_text w (str ''OPENAI_KEY=sk-aaaaaaaaaaaaaaaaaaaaaaaaaaaaaaaa'') =
         (str ''OPENAI_KEY=api_key'', True)"
    by (rule scenario_sanitized)
qed

theorem kv_replacement_keeps_key_and_quotes_witness:
  "(0, 46, [(4, []), (3, str ''sk-aaaaaaaaaaaaaaaaaaaaaaaaaaaaaaaa''), (2, []),
            (1, str ''OPENAI_KEY='')])
     \<in> set (matches_from (\<lambda>_. False) kv_general
               (str ''OPENAI_KEY=sk-aaaaaaaaaaaaaaaaaaaaaaaaaaaaaaaa'') 0)
   \<and> (\<exists>key sp1 op sp2 q v.
         slice (str ''OPENAI_KEY=sk-aaaaaaaaaaaaaaaaaaaaaaaaaaaaaaaa'') 0 46
           = key @ sp1 @ [op] @ sp2 @ q @ v @ q \<and>
         kv_repl [(4, []), (3, str ''sk-aaaaaaaaaaaaaaaaaaaaaaaaaaaaaaaa''), (2, []),
                  (1, str ''OPENAI_KEY='')]
           = key @ sp1 @ [op] @ sp2 @ q @ str ''api_key'' @ q \<and>
         16 \<le> length v)
   \<and> sanitize_text (\<lambda>_. False) (str ''OPENAI_KEY=sk-aaaaaaaaaaaaaaaaaaaaaaaaaaaaaaaa'') =
         (str ''OPENAI_KEY=api_key'', True)"
proof -
  let ?s = "str ''OPENAI_KEY=sk-aaaaaaaaaaaaaaaaaaaaaaaaaaaaaaaa''"
  let ?g = "[(4, []), (3, str ''sk-aaaaaaaaaaaaaaaaaaaaaaaaaaaaaaaa''), (2, []),
            (1, str ''OPENAI_KEY='')]"
  have m: "(0, 46, ?g) \<in> set (matches_from (\<lambda>_. False) kv_general ?s 0)"
    by (simp only: scenario_kv_match) simp
  note t = kv_replacement_keeps_key_and_quotes[of "\<lambda>_. False" ?s]
  from t m have "\<exists>key sp1 op sp2 q v.
         slice ?s 0 46 = key @ sp1 @ [op] @ sp2 @ q @ v @ q \<and>
         kv_repl ?g = key @ sp1 @ [op] @ sp2 @ q @ str ''api_key'' @ q \<and>
         16 \<le> length v"
    by blast
  with m t show ?thesis by blast
qed

text \<open>
  A key that has itself the shape of a vendor token: the key/value pattern keeps it and
  replaces the value, and the blanket pass then replaces the key.
\<close>

theorem token_shaped_key_not_preserved:
  "sanitize_text (\<lambda>_. False) (str ''sk-aaaaaaaaaaaaaaaaaaaaaaaa=bbbbbbbbbbbbbbbbbbbb'') =
     (str ''api_key=api_key'', True)"
  by (simp add: ms_eval rx_defs sub_eval del: ms.simps(4) ms.simps(7))

text \<open>
  Claim C3, as the code has it. Sanitizing a text \<open>t\<close> again changes nothing exactly
  when no key/value pattern and no blanket pattern has a match in \<open>t\<close>. The token by
  itself is never such a match: a value that a key/value pattern replaces has at least
  16 (first pattern) or 11 (second pattern) characters and a blanket match at least 11,
  against the 7 of the token.
\<close>

theorem resanitize_noop_iff_no_match:
  "(sanitize_text w t = (t, False) \<longleftrightarrow>
      matches_from w kv_general t 0 = [] \<and> matches_from w kv_sk t 0 = [] \<and>
      matches_from w token_union t 0 = [])
   \<and> (\<forall>j e g. (j, e, g) \<in> set (matches_from w kv_general t 0) \<longrightarrow> 16 \<le> length (group g 3))
   \<and> (\<forall>j e g. (j, e, g) \<in> set (matches_from w kv_sk t 0) \<longrightarrow> 11 \<le> length (group g 3))
   \<and> (\<forall>j e g. (j, e, g) \<in> set (matches_from w token_union t 0) \<longrightarrow> 11 \<le> e - j)
   \<and> length (str ''api_key'') = 7"
proof -
  have a: "sanitize_text w t = (t, False) \<longleftrightarrow>
      matches_from w kv_general t 0 = [] \<and> matches_from w kv_sk t 0 = [] \<and>
      matches_from w token_union t 0 = []"
    using sanitize_text_cases[of w t] by auto
  have b: "16 \<le> length (group g 3)" if "(j, e, g) \<in> set (matches_from w kv_general t 0)" for j e g
    using matches_from_member[OF that] kv_general_value_length[of j t e g w] by simp
  have c: "11 \<le> length (group g 3)" if "(j, e, g) \<in> set (matches_from w kv_sk t 0)" for j e g
    using matches_from_member[OF that] kv_sk_value_length[of j t e g w] by simp
  have d: "11 \<le> e - j" if "(j, e, g) \<in> set (matches_from w token_union t 0)" for j e g
  proof -
    from matches_from_member[OF that]
    have "j \<le> length t" "(e, g) \<in> set (ms w token_union t j [])" by simp_all
    from ms_bounds[OF this] have "j + 11 \<le> e" by (simp add: minlen_token_union)
    then show ?thesis by arith
  qed
  from a b c d length_api_key show ?thesis by blast
qed

theorem resanitize_noop_iff_no_match_witness:
  "sanitize_text (\<lambda>_. False) (str ''OPENAI_KEY=sk-aaaaaaaaaaaaaaaaaaaaaaaaaaaaaaaa'') =
     (str ''OPENAI_KEY=api_key'', True)
   \<and> sanitize_text (\<lambda>_. False) (str ''OPENAI_KEY=api_key'') = (str ''OPENAI_KEY=api_key'', False)"
proof -
  have "sanitize_text (\<lambda>_. False) (str ''OPENAI_KEY=api_key'') = (str ''OPENAI_KEY=api_key'', False)"
    using resanitize_noop_iff_no_match[of "\<lambda>_. False" "str ''OPENAI_KEY=api_key''"]
      scenario_output_no_match[of "\<lambda>_. False"]
    by blast
  with scenario_sanitized[of "\<lambda>_. False"] show ?thesis by blast
qed

text \<open>
  A text on which the pass is not idempotent. The value after \<open>xx=\<close> has 15 characters
  up to the white space, so no key/value pattern matches; the blanket pass replaces the
  bearer token, and the 9 characters before it together with the token are then a
  value of 16 characters, which the second run replaces.
\<close>

theorem resanitize_changes_output:
  "sanitize_text (\<lambda>_. False) (str ''xx=abcdefghiBearer aaaaaaaaaaaaaaaaaaaaaaaa'') =
     (str ''xx=abcdefghiapi_key'', True)
   \<and> sanitize_text (\<lambda>_. False) (str ''xx=abcdefghiapi_key'') = (str ''xx=api_key'', True)"
  by (simp add: ms_eval rx_defs sub_eval del: ms.simps(4) ms.simps(7))


section \<open>The two passes\<close>




















lemma is_probably_text_decodes:
  "is_probably_text data \<Longrightarrow> \<exists>decoded. utf8_decode data = Some decoded"
  by (auto simp: is_probably_text_def split: if_splits)







text \<open>
  One iteration of the semantic pass: a file that is not skipped is a text, and for a text
  the call of \<open>_chunk_text\<close> raises. Neither the service nor a command that writes is
  reached.
\<close>

lemma llm_text_raises: "llm_text en st p decoded = Some (st, Inl TypeError)"
  by (simp add: llm_text_def chunk_text_py_def)


lemma llm_file_text:
  assumes "index st p \<noteq> None" "read_data en st p = Some data" "is_probably_text data"
  shows "llm_file en st p = Some (st, Inl TypeError)"
proof -
  from is_probably_text_decodes[OF assms(3)] obtain decoded where
    "utf8_decode data = Some decoded" by blast
  then show ?thesis using assms by (auto simp: llm_file_def llm_text_raises)
qed



text \<open>Texts of ASCII characters are their own UTF-8 encoding.\<close>

lemma ascii_decode: "\<forall>c \<in> set s. c < 128 \<Longrightarrow> utf8_decode s = Some s"
  by (induction s) auto


lemma ascii_encode_ignore: "\<forall>c \<in> set s. c < 128 \<Longrightarrow> utf8_encode_ignore s = s"
  by (induction s) (auto simp: utf8_encode_ignore_def utf8_encode_char_def)

lemma example_read_ascii:
  assumes "\<forall>c \<in> set data. c < 128"
  shows "read_data (example_env h) (example_repo data) (str ''.env'') = Some data"
  using ascii_decode[OF assms] ascii_encode_ignore[OF assms]
  by (simp add: read_data_def example_env_def example_repo_def)

lemma example_indexed: "index (example_repo data) (str ''.env'') = Some (33188, str ''b0'')"
  by (simp add: example_repo_def)





















text \<open>
  Claim C8 describes how the semantic pass reconciles the findings of the service with
  the chunk, and the loop that does it is in the source (\<open>map_finding\<close> is its body).
  In the checked-in source no run gets there. For every staged path whose data is text
  the call of \<open>_chunk_text\<close> at line 326 raises \<open>TypeError\<close>, under no handler, before
  the service is asked; so the pass ends with that exception at the first staged text
  file, with the repository as it was, no finding kept and no range translated.
\<close>

theorem llm_scan_raises_at_text_file:
  assumes "client_ok en" and "index st p \<noteq> None" and "read_data en st p = Some data"
    and "is_probably_text data"
  shows "llm_file en st p = Some (st, Inl TypeError) \<and>
         llm_scan_staged_secrets_in_index en max_chars_per_call st (p # ps) =
           Some (st, Inl TypeError)"
  using assms llm_file_text[OF assms(2,3,4)]
  by (simp add: llm_scan_staged_secrets_in_index_def)

theorem llm_scan_raises_at_text_file_witness:
  "llm_scan_staged_secrets_in_index (example_env (\<lambda>_ _. Some (str ''b1''))) 60000
       (example_repo (str ''password = hunter2hunter2'')) [str ''.env'']
     = Some (example_repo (str ''password = hunter2hunter2''), Inl TypeError)"
proof -
  let ?q = "str ''password = hunter2hunter2''"
  let ?en = "example_env (\<lambda>_ _. Some (str ''b1''))"
  have aq: "\<forall>c \<in> set ?q. c < 128" by (simp add: str_def)
  have nq: "0 \<notin> set ?q" by (simp add: str_def)
  have c: "client_ok ?en" by (simp add: example_env_def)
  have i: "index (example_repo ?q) (str ''.env'') \<noteq> None" using example_indexed[of ?q] by simp
  have t: "is_probably_text ?q" using ascii_decode[OF aq] nq by (simp add: is_probably_text_def)
  from llm_scan_raises_at_text_file[OF c i example_read_ascii[OF aq] t, of 60000 "[]"]
  show ?thesis by simp
qed


end
